theory Spec2Isabelle
  imports Complex_Main "HOL-Library.Word"
begin

section \<open>Data model\<close>

text \<open>
  The durable store (the \<^verbatim>\<open>scans\<close> and \<^verbatim>\<open>matched_photos\<close> tables of the SQL schema),
  the ephemeral store (the Redis hash \<^verbatim>\<open>scan:progress:<id>\<close>) and the job queue are the
  shared state of the system. Rows are records, tables are maps from the primary key,
  and every model function takes the state and returns the new one. Identifiers are
  strings; timestamps (\<^verbatim>\<open>NOW()\<close>, \<^verbatim>\<open>new Date()\<close>) are read from the caller as a number.
  The stores are taken to answer every query: a function of the model throws only where
  the JavaScript itself throws.
\<close>

datatype scan_status = Pending | Processing | Completed | Failed | Cancelled

record scan =
  session_id :: string
  started_at :: "nat option"
  completed_at :: "nat option"
  status :: scan_status
  total_photos :: nat
  scanned_photos :: nat
  matched_photos :: nat
  uploaded_photos :: nat
  error_message :: "string option"
  job_id :: "string option"

record media_metadata =
  creationTime :: "string option"
  width :: "string option"
  height :: "string option"

record photo_metadata = media_metadata +
  filename :: "string option"
  mimeType :: "string option"

record matched_photo =
  scan_id :: string
  google_photo_id :: string
  google_photo_url :: string
  s3_url :: "string option"
  s3_key :: "string option"
  thumbnail_url :: "string option"
  confidence_score :: real
  metadata :: photo_metadata

record counters =
  totalPhotos :: nat
  scannedPhotos :: nat
  matchedPhotos :: nat
  uploadedPhotos :: nat

record progress = counters +
  currentBatch :: nat
  totalBatches :: nat

record s3_object =
  url :: string
  key :: string
  bucket :: string

record upload_result =
  originalId :: string
  success :: bool
  stored :: "s3_object option"
  upload_error :: "string option"

text \<open>An entry of the worker's match list \<^verbatim>\<open>matchedPhotosData\<close>.\<close>

record match_data =
  googlePhotoId :: string
  googlePhotoUrl :: string
  md_confidence :: real
  md_metadata :: photo_metadata

text \<open>
  The calls a run makes to its collaborators are recorded in order, with what the
  batch upload returned: the properties of a run are stated on this record.
  \<open>ScanningComplete\<close> is the worker's log line after the batch loop
  (\<^verbatim>\<open>Scanning complete. Found ... matches\<close>); it is recorded with the match list as
  it stands at that line.
\<close>

datatype event =
    FetchAllPhotos
  | UpdateProgress progress
  | JobProgress
  | DownloadPhotosInBatches "string list"
  | MatchFace string
  | ScanningComplete "match_data list"
  | DownloadOriginalPhotos "string list"
  | UploadPhotosInBatch "string list"
  | UploadResults "upload_result list"
  | CreateMatchedPhotos nat

record world =
  scans_table :: "string \<rightharpoonup> scan"
  matched_photos_table :: "matched_photo list"
  redis :: "string \<rightharpoonup> progress \<times> nat"
  queue_jobs :: "string set"
  calls :: "event list"

section \<open>scan.model\<close>

text \<open>
  \<^verbatim>\<open>UPDATE scans SET ... WHERE id = $1 RETURNING *\<close>: the row with that id is rewritten
  when there is one; when there is none the statement updates nothing and raises nothing
  (\<^verbatim>\<open>result.rows[0]\<close> is \<^verbatim>\<open>undefined\<close>, which no caller reads).
\<close>

definition update_row :: "string \<Rightarrow> (scan \<Rightarrow> scan) \<Rightarrow> world \<Rightarrow> world" where
  "update_row scanId f w =
     (case scans_table w scanId of
        None \<Rightarrow> w
      | Some s \<Rightarrow> w\<lparr>scans_table := (scans_table w)(scanId \<mapsto> f s)\<rparr>)"

definition getScanById :: "string \<Rightarrow> world \<Rightarrow> scan option" where
  "getScanById scanId w = scans_table w scanId"

definition COALESCE :: "'a option \<Rightarrow> 'a \<Rightarrow> 'a" where
  "COALESCE v old = (case v of None \<Rightarrow> old | Some x \<Rightarrow> x)"

definition updateScanProgress ::
  "string \<Rightarrow> nat option \<Rightarrow> nat option \<Rightarrow> nat option \<Rightarrow> nat option \<Rightarrow> world \<Rightarrow> world" where
  "updateScanProgress scanId tp sp mp up w =
     update_row scanId
       (\<lambda>s. s\<lparr>total_photos := COALESCE tp (total_photos s),
              scanned_photos := COALESCE sp (scanned_photos s),
              matched_photos := COALESCE mp (matched_photos s),
              uploaded_photos := COALESCE up (uploaded_photos s)\<rparr>) w"

text \<open>
  The column \<^verbatim>\<open>scans.id\<close> is of type \<^verbatim>\<open>UUID\<close>, and the id reaches the statement as a
  text. The database reads as a uuid 32 hexadecimal digits of either case, with an
  optional hyphen after any group of four digits and optional braces around the whole;
  for any other text the statement raises
  \<^verbatim>\<open>invalid input syntax for type uuid\<close>, and the function of the model rethrows.
  \<^verbatim>\<open>markScanStarted\<close> is the first statement of a run, and so the place where a run
  meets an id that is no uuid. The other functions of this module are given for an id
  that the database reads: the later statements of a run are made with the id that
  \<^verbatim>\<open>markScanStarted\<close> has accepted, the \<^verbatim>\<open>catch\<close> of \<^verbatim>\<open>processScan\<close> makes the same
  test before \<^verbatim>\<open>markScanFailed\<close>, and the routes admit only a uuid as
  \<^verbatim>\<open>:scanId\<close> (\<^verbatim>\<open>validateScanId\<close>). A row is found under the text of its id.
\<close>

definition is_hex :: "char \<Rightarrow> bool" where
  "is_hex c \<longleftrightarrow> c \<in> set ''0123456789abcdefABCDEF''"

text \<open>
  The bytes of a uuid, two digits each: \<open>n\<close> bytes are still to be read, and \<open>h\<close> tells
  whether a hyphen may follow the next byte (after every second byte but the last).
\<close>

fun uuid_bytes :: "nat \<Rightarrow> bool \<Rightarrow> string \<Rightarrow> bool" where
  "uuid_bytes 0 h src = (src = [])"
| "uuid_bytes (Suc n) h (a # b # src) =
     (is_hex a \<and> is_hex b \<and>
      uuid_bytes n (\<not> h) (if h \<and> 0 < n \<and> take 1 src = ''-'' then drop 1 src else src))"
| "uuid_bytes (Suc n) h src = False"

definition is_uuid :: "string \<Rightarrow> bool" where
  "is_uuid src =
     (if take 1 src = ''{''
      then drop 1 src \<noteq> [] \<and> last src = CHR ''}'' \<and> uuid_bytes 16 False (butlast (drop 1 src))
      else uuid_bytes 16 False src)"

definition invalid_uuid :: "string \<Rightarrow> string" where
  "invalid_uuid scanId = ''invalid input syntax for type uuid: '' @ scanId"

definition markScanStarted :: "string \<Rightarrow> nat \<Rightarrow> world \<Rightarrow> string + world" where
  "markScanStarted scanId now w =
     (if is_uuid scanId
      then Inr (update_row scanId (\<lambda>s. s\<lparr>status := Processing, started_at := Some now\<rparr>) w)
      else Inl (invalid_uuid scanId))"

definition markScanCompleted :: "string \<Rightarrow> nat \<Rightarrow> world \<Rightarrow> world" where
  "markScanCompleted scanId now w =
     update_row scanId (\<lambda>s. s\<lparr>status := Completed, completed_at := Some now\<rparr>) w"

definition markScanFailed :: "string \<Rightarrow> string \<Rightarrow> nat \<Rightarrow> world \<Rightarrow> world" where
  "markScanFailed scanId errorMessage now w =
     update_row scanId
       (\<lambda>s. s\<lparr>status := Failed, error_message := Some errorMessage,
              completed_at := Some now\<rparr>) w"

section \<open>queue\<close>

text \<open>\<^verbatim>\<open>cancelJob\<close> removes the job when the queue still holds it.\<close>

definition cancelJob :: "string \<Rightarrow> world \<Rightarrow> world" where
  "cancelJob jobId w =
     (if jobId \<in> queue_jobs w then w\<lparr>queue_jobs := queue_jobs w - {jobId}\<rparr> else w)"

section \<open>POST /api/scans/:scanId/cancel\<close>

record response =
  http_status :: nat
  body_error :: "string option"
  body_message :: string

text \<open>A JavaScript string is truthy when it is present and not empty.\<close>

definition truthy :: "string option \<Rightarrow> bool" where
  "truthy v = (case v of None \<Rightarrow> False | Some s \<Rightarrow> s \<noteq> [])"

definition cancel_route :: "string \<Rightarrow> nat \<Rightarrow> world \<Rightarrow> response \<times> world" where
  "cancel_route scanId now w =
     (case getScanById scanId w of
        None \<Rightarrow>
          (\<lparr>http_status = 404, body_error = Some ''Scan not found'',
            body_message = ''Scan does not exist''\<rparr>, w)
      | Some s \<Rightarrow>
          if status s = Completed \<or> status s = Failed then
            (\<lparr>http_status = 400, body_error = Some ''Cannot cancel'',
              body_message = ''Scan is already completed or failed''\<rparr>, w)
          else
            let w1 = (if truthy (job_id s) then cancelJob (the (job_id s)) w else w);
                w2 = update_row scanId
                       (\<lambda>r. r\<lparr>status := Cancelled, completed_at := Some now\<rparr>) w1
            in (\<lparr>http_status = 200, body_error = None,
                 body_message = ''Scan cancelled successfully''\<rparr>, w2))"

section \<open>s3Upload: upload with retry\<close>

text \<open>
  \<^verbatim>\<open>uploadPhoto\<close> writes to the blob store and either returns the stored object or
  throws. For one item, the store's answers to the successive calls are a function of
  the attempt number. \<^verbatim>\<open>uploadPhotoWithRetry\<close> is the \<^verbatim>\<open>for\<close> loop over
  \<^verbatim>\<open>attempt = 1 .. maxRetries\<close>; the model also returns what the loop did, in order:
  each call of \<^verbatim>\<open>uploadPhoto\<close> and each \<^verbatim>\<open>setTimeout\<close> delay in milliseconds.
  A loop that ends without returning (\<^verbatim>\<open>maxRetries < 1\<close>) yields \<^verbatim>\<open>undefined\<close>,
  here \<open>Inr None\<close>.
\<close>

datatype retry_event = Attempt nat | Wait nat

type_synonym uploader = "nat \<Rightarrow> string + s3_object"

function retry_loop ::
  "uploader \<Rightarrow> nat \<Rightarrow> nat \<Rightarrow> (string + s3_object option) \<times> retry_event list" where
  "retry_loop uploadPhoto maxRetries attempt =
     (if attempt \<le> maxRetries then
        (case uploadPhoto attempt of
           Inr obj \<Rightarrow> (Inr (Some obj), [Attempt attempt])
         | Inl err \<Rightarrow>
             if attempt = maxRetries then (Inl err, [Attempt attempt])
             else
               let delay = 2 ^ (attempt - 1) * 1000;
                   (r, evs) = retry_loop uploadPhoto maxRetries (attempt + 1)
               in (r, Attempt attempt # Wait delay # evs))
      else (Inr None, []))"
  by pat_completeness auto
termination
  by (relation "measure (\<lambda>(u, m, a). Suc m - a)") auto

definition uploadPhotoWithRetry ::
  "uploader \<Rightarrow> nat \<Rightarrow> (string + s3_object option) \<times> retry_event list" where
  "uploadPhotoWithRetry uploadPhoto maxRetries = retry_loop uploadPhoto maxRetries 1"

definition default_maxRetries :: nat where
  "default_maxRetries = 3"

section \<open>config\<close>

text \<open>
  \<^verbatim>\<open>config.faceDetection.matchThreshold\<close> is 0.6 in the repository's configuration
  module (\<^verbatim>\<open>// Minimum similarity score to consider a match\<close>); no other module of the
  repository reads it.
  \<^verbatim>\<open>config.worker.batchSize\<close> is \<^verbatim>\<open>parseInt(process.env.BATCH_SIZE) || 100\<close>: the
  variable's value when it parses to a number other than 0, and 100 otherwise
  (\<open>None\<close> stands for an unset or unparsable variable; sizes are natural numbers).
\<close>

definition matchThreshold :: real where
  "matchThreshold = 0.6"

definition batchSize :: "nat option \<Rightarrow> nat" where
  "batchSize BATCH_SIZE = (case BATCH_SIZE of None \<Rightarrow> 100 | Some n \<Rightarrow> if n = 0 then 100 else n)"

section \<open>faceDetection (the mock matcher)\<close>

text \<open>
  An image buffer is a list of bytes; \<^verbatim>\<open>null\<close> is \<open>None\<close>. \<^verbatim>\<open>sizeOf\<close> is the
  \<^verbatim>\<open>image-size\<close> library, a parameter here: it returns the dimensions or throws.
  Of the mock face only the fields that are plain copies are kept; its box, landmarks
  and descriptor are floating-point values that nothing in the pipeline reads.
  A function that can throw returns a sum, \<open>Inl\<close> carrying the error message, and each
  \<^verbatim>\<open>try/catch\<close> is a case distinction on that sum.
  \<^verbatim>\<open>Math.random()\<close> is read twice by \<^verbatim>\<open>matchFace\<close>; the two numbers drawn are the
  argument \<open>rnd\<close>, real numbers in place of the doubles.
\<close>

type_synonym buffer = "8 word list"

type_synonym image_size = "buffer \<Rightarrow> string + nat \<times> nat"

record face =
  score :: real
  imageWidth :: nat
  imageHeight :: nat

record match_result =
  isMatch :: bool
  confidence :: real
  facesDetected :: nat
  bestMatchIndex :: "nat option"
  distance :: "real option"
  error :: "string option"

definition detectFaces_try :: "image_size \<Rightarrow> buffer option \<Rightarrow> string + face list" where
  "detectFaces_try sizeOf imageBuffer =
     (case imageBuffer of
        None \<Rightarrow> Inr []
      | Some b \<Rightarrow>
          if length b = 0 then Inr []
          else (case sizeOf b of
                  Inl err \<Rightarrow> Inl err
                | Inr (w, h) \<Rightarrow> Inr [\<lparr>score = 0.95, imageWidth = w, imageHeight = h\<rparr>]))"

definition detectFaces :: "image_size \<Rightarrow> buffer option \<Rightarrow> string + face list" where
  "detectFaces sizeOf imageBuffer =
     (case detectFaces_try sizeOf imageBuffer of
        Inl err \<Rightarrow> Inr []
      | Inr faces \<Rightarrow> Inr faces)"

definition no_match :: "string option \<Rightarrow> match_result" where
  "no_match err =
     \<lparr>isMatch = False, confidence = 0, facesDetected = 0, bestMatchIndex = None,
      distance = None, error = err\<rparr>"

definition matchFace_try ::
  "(buffer option \<Rightarrow> string + face list) \<Rightarrow> buffer option \<Rightarrow> real list list \<Rightarrow> real \<times> real
     \<Rightarrow> string + match_result" where
  "matchFace_try detect imageBuffer referenceEmbeddings rnd =
     (case detect imageBuffer of
        Inl err \<Rightarrow> Inl err
      | Inr faces \<Rightarrow>
          if length faces = 0 then Inr (no_match None)
          else
            let is_match = fst rnd > 0.3;
                conf = (if is_match then 0.85 + snd rnd * 0.1 else 0.3 + snd rnd * 0.2)
            in Inr \<lparr>isMatch = is_match, confidence = conf, facesDetected = length faces,
                    bestMatchIndex = Some 0,
                    distance = Some (if is_match then 0.3 else 0.8), error = None\<rparr>)"

text \<open>
  \<^verbatim>\<open>matchFace\<close> with the detector it calls as a parameter, so that the \<^verbatim>\<open>catch\<close>
  can be stated for a detector that throws; the module's \<^verbatim>\<open>matchFace\<close> calls
  \<^verbatim>\<open>detectFaces\<close>.
\<close>

definition matchFace_with ::
  "(buffer option \<Rightarrow> string + face list) \<Rightarrow> buffer option \<Rightarrow> real list list \<Rightarrow> real \<times> real
     \<Rightarrow> string + match_result" where
  "matchFace_with detect imageBuffer referenceEmbeddings rnd =
     (case matchFace_try detect imageBuffer referenceEmbeddings rnd of
        Inl err \<Rightarrow> Inr (no_match (Some err))
      | Inr r \<Rightarrow> Inr r)"

definition matchFace ::
  "image_size \<Rightarrow> buffer option \<Rightarrow> real list list \<Rightarrow> real \<times> real \<Rightarrow> string + match_result" where
  "matchFace sizeOf imageBuffer referenceEmbeddings rnd =
     matchFace_with (detectFaces sizeOf) imageBuffer referenceEmbeddings rnd"

section \<open>matchedPhoto.model\<close>

text \<open>
  \<^verbatim>\<open>createMatchedPhotos\<close> inserts all rows in one statement. The columns
  \<^verbatim>\<open>s3_url\<close> and \<^verbatim>\<open>s3_key\<close> are \<^verbatim>\<open>NOT NULL\<close>: a record without them makes the
  statement fail, and so does a record whose \<^verbatim>\<open>scan_id\<close> references no scan; the
  function rethrows.
\<close>

definition createMatchedPhotos :: "matched_photo list \<Rightarrow> world \<Rightarrow> string + world" where
  "createMatchedPhotos photos w =
     (if length photos = 0 then Inr w
      else if list_ex (\<lambda>r. s3_url r = None \<or> s3_key r = None) photos
      then Inl ''null value violates not-null constraint''
      else if list_ex (\<lambda>r. scans_table w (scan_id r) = None) photos
      then Inl ''insert violates foreign key constraint''
      else Inr (w\<lparr>matched_photos_table := matched_photos_table w @ photos,
                  calls := calls w @ [CreateMatchedPhotos (length photos)]\<rparr>))"

section \<open>googlePhotos\<close>

text \<open>
  A media item as the Photos API returns it. The answers of the API to one enumeration
  are a finite script: pages with a next-page token, then a last page, or a failing
  request. \<^verbatim>\<open>fetchAllPhotos\<close> is the \<^verbatim>\<open>do ... while (pageToken)\<close> loop; its callback
  runs after each page with the number of items fetched so far and the page count.
\<close>

record media_item =
  item_id :: string
  baseUrl :: string
  item_filename :: "string option"
  item_mimeType :: "string option"
  mediaMetadata :: "media_metadata option"

datatype fetch_script =
    LastPage "media_item list"
  | NextPage "media_item list" fetch_script
  | RequestFails string

fun fetchAllPhotos ::
  "fetch_script \<Rightarrow> (nat \<Rightarrow> nat \<Rightarrow> 's \<Rightarrow> 's) \<Rightarrow> media_item list \<Rightarrow> nat \<Rightarrow> 's
     \<Rightarrow> (string + media_item list) \<times> 's" where
  "fetchAllPhotos (RequestFails err) progressCallback photos pageCount st = (Inl err, st)"
| "fetchAllPhotos (LastPage items) progressCallback photos pageCount st =
     (Inr (photos @ items),
      progressCallback (length (photos @ items)) (pageCount + 1) st)"
| "fetchAllPhotos (NextPage items rest) progressCallback photos pageCount st =
     fetchAllPhotos rest progressCallback (photos @ items) (pageCount + 1)
       (progressCallback (length (photos @ items)) (pageCount + 1) st)"

record downloaded_photo =
  dl_id :: string
  dl_buffer :: buffer
  dl_metadata :: media_item

text \<open>
  Both download functions attempt every item and return the successes only, in input
  order (\<^verbatim>\<open>Promise.allSettled\<close> keeps the order of its input). The download of one URL
  is a parameter: it returns the bytes or throws.
\<close>

definition download_all ::
  "(string \<Rightarrow> string + buffer) \<Rightarrow> media_item list \<Rightarrow> downloaded_photo list" where
  "download_all download photos =
     List.map_filter
       (\<lambda>photo. case download (baseUrl photo) of
                   Inl err \<Rightarrow> None
                 | Inr buf \<Rightarrow> Some \<lparr>dl_id = item_id photo, dl_buffer = buf, dl_metadata = photo\<rparr>)
       photos"

section \<open>s3Upload: upload in batch\<close>

record upload_metadata =
  um_scanId :: string
  um_sessionId :: string
  um_confidence :: "real option"
  originalCreationTime :: "string option"

record upload_item =
  up_id :: string
  up_buffer :: buffer
  up_filename :: string
  up_metadata :: upload_metadata

text \<open>
  \<^verbatim>\<open>uploadPhotosInBatch\<close>: every item is uploaded with retry; a success counts
  \<^verbatim>\<open>completed\<close> up and runs the callback, a failure becomes a result with
  \<^verbatim>\<open>success: false\<close>. The results are in input order. The pool of five runs the
  uploads interleaved; the model takes them one after the other, in input order.
  The store's answers are a parameter, by file name and attempt.
\<close>

fun upload_each ::
  "(string \<Rightarrow> uploader) \<Rightarrow> nat \<Rightarrow> (nat \<Rightarrow> nat \<Rightarrow> 's \<Rightarrow> 's) \<Rightarrow> upload_item list \<Rightarrow> nat \<Rightarrow> 's
     \<Rightarrow> upload_result list \<times> 's" where
  "upload_each store ntotal progressCallback [] completed st = ([], st)"
| "upload_each store ntotal progressCallback (photo # photos) completed st =
     (case fst (uploadPhotoWithRetry (store (up_filename photo)) default_maxRetries) of
        Inr obj \<Rightarrow>
          let st1 = progressCallback (completed + 1) ntotal st;
              (results, st2) = upload_each store ntotal progressCallback photos (completed + 1) st1
          in (\<lparr>originalId = up_id photo, success = True, stored = obj,
                upload_error = None\<rparr> # results, st2)
      | Inl err \<Rightarrow>
          let (results, st2) = upload_each store ntotal progressCallback photos completed st
          in (\<lparr>originalId = up_id photo, success = False, stored = None,
                upload_error = Some err\<rparr> # results, st2))"

definition uploadPhotosInBatch ::
  "(string \<Rightarrow> uploader) \<Rightarrow> upload_item list \<Rightarrow> (nat \<Rightarrow> nat \<Rightarrow> 's \<Rightarrow> 's) \<Rightarrow> 's
     \<Rightarrow> upload_result list \<times> 's" where
  "uploadPhotosInBatch store photos progressCallback st =
     upload_each store (length photos) progressCallback photos 0 st"

section \<open>scanWorker: the orchestrator\<close>

text \<open>
  Everything outside the process that a run consults is a field of the environment:
  the decryption of the stored credential, the token refresh, the Photos API, the
  downloads, the image library, the random numbers of the mock matcher (by photo id),
  the blob store, the configured batch size and match threshold, and the clock.
\<close>

record token_data =
  access_token :: string
  refresh_token :: "string option"
  expiry_date :: "int option"

record env =
  env_decrypt :: "string \<Rightarrow> string + string"
  env_JSON_parse :: "string \<Rightarrow> token_data option"
  env_Date_now :: int
  env_refreshAccessToken :: "string \<Rightarrow> string + string"
  env_mediaItems_search :: "string \<Rightarrow> fetch_script"
  env_downloadPhoto :: "string \<Rightarrow> string + buffer"
  env_downloadOriginalPhoto :: "string \<Rightarrow> string + buffer"
  env_sizeOf :: image_size
  env_Math_random :: "string \<Rightarrow> real \<times> real"
  env_uploadPhoto :: "string \<Rightarrow> uploader"
  env_BATCH_SIZE :: "nat option"
  env_matchThreshold :: real
  env_NOW_started :: nat
  env_NOW_finished :: nat

record job =
  job_scanId :: string
  job_sessionId :: string
  job_oauthToken :: string
  job_referenceEmbeddings :: "real list list"

record locals = counters +
  matchedPhotosData :: "match_data list"

record scan_result =
  res_success :: bool
  res_message :: "string option"
  res_totalPhotos :: nat
  res_scannedPhotos :: "nat option"
  res_matchedPhotos :: nat
  res_uploadedPhotos :: "nat option"

definition record_call :: "event \<Rightarrow> world \<Rightarrow> world" where
  "record_call e w = w\<lparr>calls := calls w @ [e]\<rparr>"

text \<open>
  \<^verbatim>\<open>updateProgress\<close> overwrites the Redis hash (all six fields are always given) with
  a TTL of 86400 seconds, then writes the four counters to the scan's row. Its own
  \<^verbatim>\<open>try/catch\<close> swallows every error, so it never throws. The callbacks call it
  without \<^verbatim>\<open>await\<close>; the model performs each update where it is issued.
\<close>

definition updateProgress :: "string \<Rightarrow> progress \<Rightarrow> world \<Rightarrow> world" where
  "updateProgress scanId p w =
     updateScanProgress scanId (Some (totalPhotos p)) (Some (scannedPhotos p))
       (Some (matchedPhotos p)) (Some (uploadedPhotos p))
       (w\<lparr>redis := (redis w)(scanId \<mapsto> (p, 86400)),
          calls := calls w @ [UpdateProgress p]\<rparr>)"

definition snapshot :: "locals \<Rightarrow> nat \<Rightarrow> nat \<Rightarrow> progress" where
  "snapshot l current nbatches =
     \<lparr>totalPhotos = totalPhotos l, scannedPhotos = scannedPhotos l,
      matchedPhotos = matchedPhotos l, uploadedPhotos = uploadedPhotos l,
      currentBatch = current, totalBatches = nbatches\<rparr>"

definition truthy_number :: "int option \<Rightarrow> bool" where
  "truthy_number v = (case v of None \<Rightarrow> False | Some n \<Rightarrow> n \<noteq> 0)"

definition resolveAccessToken :: "env \<Rightarrow> string \<Rightarrow> string + string" where
  "resolveAccessToken env oauthToken =
     (case env_decrypt env oauthToken of
        Inl err \<Rightarrow> Inl err
      | Inr decryptedToken \<Rightarrow>
          let tokenData =
                (case env_JSON_parse env decryptedToken of
                   None \<Rightarrow> \<lparr>access_token = decryptedToken, refresh_token = None,
                             expiry_date = None\<rparr>
                 | Some td \<Rightarrow> td)
          in if truthy (refresh_token tokenData) \<and> truthy_number (expiry_date tokenData) then
               if the (expiry_date tokenData) - env_Date_now env < 5 * 60 * 1000 then
                 (case env_refreshAccessToken env (the (refresh_token tokenData)) of
                    Inl err \<Rightarrow> Inl ''OAuth token expired and refresh failed''
                  | Inr newToken \<Rightarrow> Inr newToken)
               else Inr (access_token tokenData)
             else Inr (access_token tokenData))"

definition on_fetch_progress :: "string \<Rightarrow> nat \<Rightarrow> nat \<Rightarrow> locals \<times> world \<Rightarrow> locals \<times> world" where
  "on_fetch_progress scanId totalFetched currentPage st =
     (let l = (fst st)\<lparr>totalPhotos := totalFetched\<rparr>
      in (l, updateProgress scanId (snapshot l 0 0) (snd st)))"

definition match_entry :: "downloaded_photo \<Rightarrow> match_result \<Rightarrow> match_data" where
  "match_entry photo matchResult =
     \<lparr>googlePhotoId = dl_id photo,
      googlePhotoUrl = baseUrl (dl_metadata photo),
      md_confidence = confidence matchResult,
      md_metadata =
        \<lparr>creationTime = Option.bind (mediaMetadata (dl_metadata photo)) creationTime,
         width = Option.bind (mediaMetadata (dl_metadata photo)) width,
         height = Option.bind (mediaMetadata (dl_metadata photo)) height,
         filename = item_filename (dl_metadata photo),
         mimeType = item_mimeType (dl_metadata photo)\<rparr>\<rparr>"

text \<open>
  The loop over the downloaded thumbnails of one batch. The percentage given to
  \<^verbatim>\<open>job.progress\<close> is a floating-point quotient; the call is recorded without it.
\<close>

definition evaluate :: "env \<Rightarrow> job \<Rightarrow> downloaded_photo \<Rightarrow> string + match_result" where
  "evaluate env job photo =
     matchFace (env_sizeOf env) (Some (dl_buffer photo)) (job_referenceEmbeddings job)
       (env_Math_random env (dl_id photo))"

fun scan_downloaded ::
  "env \<Rightarrow> job \<Rightarrow> nat \<Rightarrow> nat \<Rightarrow> downloaded_photo list \<Rightarrow> locals \<times> world \<Rightarrow> locals \<times> world" where
  "scan_downloaded env job current nbatches [] st = st"
| "scan_downloaded env job current nbatches (photo # photos) st =
     (let w0 = record_call (MatchFace (dl_id photo)) (snd st)
      in case evaluate env job photo of
           Inl err \<Rightarrow> scan_downloaded env job current nbatches photos (fst st, w0)
         | Inr matchResult \<Rightarrow>
             let l1 = (fst st)\<lparr>scannedPhotos := scannedPhotos (fst st) + 1\<rparr>;
                 l2 = (if isMatch matchResult
                       then l1\<lparr>matchedPhotos := matchedPhotos l1 + 1,
                               matchedPhotosData :=
                                 matchedPhotosData l1 @ [match_entry photo matchResult]\<rparr>
                       else l1);
                 w1 = (if scannedPhotos l2 mod 10 = 0
                       then record_call JobProgress
                              (updateProgress (job_scanId job) (snapshot l2 current nbatches) w0)
                       else w0)
             in scan_downloaded env job current nbatches photos (l2, w1))"

text \<open>
  The loop over the batches, \<^verbatim>\<open>for (let i = 0; i < allPhotos.length; i += batchSize)\<close>.
  \<^verbatim>\<open>config.worker.batchSize\<close> is never 0; the test \<open>0 < bsize\<close> makes the recursion
  well-founded for every argument.
\<close>

function process_batches ::
  "env \<Rightarrow> job \<Rightarrow> media_item list \<Rightarrow> nat \<Rightarrow> nat \<Rightarrow> nat \<Rightarrow> locals \<times> world \<Rightarrow> locals \<times> world" where
  "process_batches env job allPhotos bsize nbatches i st =
     (if i < length allPhotos \<and> 0 < bsize then
        let current = i div bsize + 1;
            batch = take bsize (drop i allPhotos);
            w0 = record_call (DownloadPhotosInBatches (map item_id batch)) (snd st);
            downloadedPhotos = download_all (env_downloadPhoto env) batch
        in process_batches env job allPhotos bsize nbatches (i + bsize)
             (scan_downloaded env job current nbatches downloadedPhotos (fst st, w0))
      else st)"
  by pat_completeness auto
termination
  by (relation "measure (\<lambda>(env, job, allPhotos, bsize, nbatches, i, st). length allPhotos - i)") auto

definition to_upload :: "job \<Rightarrow> match_data list \<Rightarrow> downloaded_photo \<Rightarrow> upload_item" where
  "to_upload job matched photo =
     \<lparr>up_id = dl_id photo,
      up_buffer = dl_buffer photo,
      up_filename =
        (if truthy (item_filename (dl_metadata photo)) then the (item_filename (dl_metadata photo))
         else ''photo-'' @ dl_id photo @ ''.jpg''),
      up_metadata =
        \<lparr>um_scanId = job_scanId job, um_sessionId = job_sessionId job,
         um_confidence =
           map_option md_confidence (find (\<lambda>m. googlePhotoId m = dl_id photo) matched),
         originalCreationTime =
           Option.bind (mediaMetadata (dl_metadata photo)) creationTime\<rparr>\<rparr>"

definition on_upload_progress ::
  "string \<Rightarrow> nat \<Rightarrow> nat \<Rightarrow> nat \<Rightarrow> locals \<times> world \<Rightarrow> locals \<times> world" where
  "on_upload_progress scanId nbatches completed count st =
     (let l = (fst st)\<lparr>uploadedPhotos := completed\<rparr>
      in (l, updateProgress scanId (snapshot l nbatches nbatches) (snd st)))"

text \<open>
  One record per successful upload result. \<^verbatim>\<open>matchData\<close> is looked up by id; reading
  a field of a missing \<^verbatim>\<open>matchData\<close> is a TypeError.
\<close>

definition photo_record :: "string \<Rightarrow> match_data list \<Rightarrow> upload_result \<Rightarrow> string + matched_photo" where
  "photo_record scanId matched result =
     (case find (\<lambda>m. googlePhotoId m = originalId result) matched of
        None \<Rightarrow> Inl ''Cannot read properties of undefined''
      | Some matchData \<Rightarrow>
          Inr \<lparr>scan_id = scanId,
               google_photo_id = originalId result,
               google_photo_url = googlePhotoUrl matchData,
               s3_url = map_option url (stored result),
               s3_key = map_option key (stored result),
               thumbnail_url = None,
               confidence_score = md_confidence matchData,
               metadata = md_metadata matchData\<rparr>)"

fun map_throwing :: "('a \<Rightarrow> string + 'b) \<Rightarrow> 'a list \<Rightarrow> string + 'b list" where
  "map_throwing f [] = Inr []"
| "map_throwing f (x # xs) =
     (case f x of
        Inl err \<Rightarrow> Inl err
      | Inr y \<Rightarrow> (case map_throwing f xs of Inl err \<Rightarrow> Inl err | Inr ys \<Rightarrow> Inr (y # ys)))"

text \<open>
  Step 3 of the worker, in two parts: the originals of the matched items are downloaded
  and uploaded; then the successful uploads are saved as rows and counted.
\<close>

definition upload_matched ::
  "env \<Rightarrow> job \<Rightarrow> media_item list \<Rightarrow> nat \<Rightarrow> locals \<times> world
     \<Rightarrow> upload_result list \<times> (locals \<times> world)" where
  "upload_matched env job allPhotos nbatches st =
     (let matched = matchedPhotosData (fst st);
          matchedPhotoMetadata =
            filter (\<lambda>photo. list_ex (\<lambda>m. googlePhotoId m = item_id photo) matched) allPhotos;
          w0 = record_call (DownloadOriginalPhotos (map item_id matchedPhotoMetadata)) (snd st);
          originalPhotos = download_all (env_downloadOriginalPhoto env) matchedPhotoMetadata;
          photosToUpload = map (to_upload job matched) originalPhotos;
          w1 = record_call (UploadPhotosInBatch (map up_id photosToUpload)) w0
      in uploadPhotosInBatch (env_uploadPhoto env) photosToUpload
           (on_upload_progress (job_scanId job) nbatches) (fst st, w1))"

definition save_matched ::
  "job \<Rightarrow> match_data list \<Rightarrow> upload_result list \<Rightarrow> locals \<times> world
     \<Rightarrow> (string + locals) \<times> world" where
  "save_matched job matched uploadResults st =
     (case map_throwing (photo_record (job_scanId job) matched)
             (filter success uploadResults) of
        Inl err \<Rightarrow> (Inl err, snd st)
      | Inr photoRecords \<Rightarrow>
          (case (if length photoRecords > 0
                 then createMatchedPhotos photoRecords (snd st) else Inr (snd st)) of
             Inl err \<Rightarrow> (Inl err, snd st)
           | Inr w \<Rightarrow> (Inr ((fst st)\<lparr>uploadedPhotos := length photoRecords\<rparr>), w)))"

definition upload_stage ::
  "env \<Rightarrow> job \<Rightarrow> media_item list \<Rightarrow> nat \<Rightarrow> locals \<times> world \<Rightarrow> (string + locals) \<times> world" where
  "upload_stage env job allPhotos nbatches st =
     (if length (matchedPhotosData (fst st)) > 0 then
        let up = upload_matched env job allPhotos nbatches st
        in save_matched job (matchedPhotosData (fst st)) (fst up)
             (fst (snd up), record_call (UploadResults (fst up)) (snd (snd up)))
      else (Inr (fst st), snd st))"

definition ceil_div :: "nat \<Rightarrow> nat \<Rightarrow> nat" where
  "ceil_div a b = (a + b - 1) div b"

text \<open>
  The run once the enumeration has returned a non-empty list, in two parts. First the
  total is set and written, the batches are scanned, and the end of the scanning is
  logged.
\<close>

definition scan_stage :: "env \<Rightarrow> job \<Rightarrow> media_item list \<Rightarrow> locals \<times> world \<Rightarrow> locals \<times> world" where
  "scan_stage env job allPhotos st =
     (let l1 = (fst st)\<lparr>totalPhotos := length allPhotos\<rparr>;
          bsize = batchSize (env_BATCH_SIZE env);
          nbatches = ceil_div (totalPhotos l1) bsize;
          w1 = updateProgress (job_scanId job) (snapshot l1 0 nbatches) (snd st);
          st2 = process_batches env job allPhotos bsize nbatches 0 (l1, w1)
      in (fst st2, record_call (ScanningComplete (matchedPhotosData (fst st2))) (snd st2)))"

text \<open>
  Then the matches are uploaded and saved, the final progress update is written and
  the scan is marked completed.
\<close>

definition scan_and_upload ::
  "env \<Rightarrow> job \<Rightarrow> media_item list \<Rightarrow> locals \<times> world \<Rightarrow> (string + scan_result) \<times> world" where
  "scan_and_upload env job allPhotos st =
     (let scanId = job_scanId job;
          nbatches = ceil_div (length allPhotos) (batchSize (env_BATCH_SIZE env))
      in case upload_stage env job allPhotos nbatches (scan_stage env job allPhotos st) of
           (Inl err, w2) \<Rightarrow> (Inl err, w2)
         | (Inr l2, w2) \<Rightarrow>
             (Inr \<lparr>res_success = True, res_message = None,
                   res_totalPhotos = totalPhotos l2,
                   res_scannedPhotos = Some (scannedPhotos l2),
                   res_matchedPhotos = matchedPhotos l2,
                   res_uploadedPhotos = Some (uploadedPhotos l2)\<rparr>,
              markScanCompleted scanId (env_NOW_finished env)
                (updateProgress scanId (snapshot l2 nbatches nbatches) w2)))"

definition initial_locals :: locals where
  "initial_locals =
     \<lparr>totalPhotos = 0, scannedPhotos = 0, matchedPhotos = 0, uploadedPhotos = 0,
      matchedPhotosData = []\<rparr>"

text \<open>
  The \<^verbatim>\<open>try\<close> block of \<^verbatim>\<open>processScan\<close> after its first statement: the credential
  is resolved, the library is enumerated, and the run ends there when the library is
  empty. \<open>w0\<close> is the state that \<^verbatim>\<open>markScanStarted\<close> has left.
\<close>

definition resolve_and_scan :: "env \<Rightarrow> job \<Rightarrow> world \<Rightarrow> (string + scan_result) \<times> world" where
  "resolve_and_scan env job w0 =
     (let scanId = job_scanId job
      in case resolveAccessToken env (job_oauthToken job) of
           Inl err \<Rightarrow> (Inl err, w0)
         | Inr accessToken \<Rightarrow>
             let fetched =
                   fetchAllPhotos (env_mediaItems_search env accessToken)
                     (on_fetch_progress scanId) [] 0
                     (initial_locals, record_call FetchAllPhotos w0)
             in case fst fetched of
                  Inl err \<Rightarrow> (Inl err, snd (snd fetched))
                | Inr allPhotos \<Rightarrow>
                    if length allPhotos = 0 then
                      (Inr \<lparr>res_success = True,
                            res_message = Some ''No photos found in Google Photos'',
                            res_totalPhotos = 0, res_scannedPhotos = None,
                            res_matchedPhotos = 0, res_uploadedPhotos = None\<rparr>,
                       markScanCompleted scanId (env_NOW_finished env) (snd (snd fetched)))
                    else scan_and_upload env job allPhotos (snd fetched))"

text \<open>
  The whole \<^verbatim>\<open>try\<close> block: when \<^verbatim>\<open>markScanStarted\<close> throws, nothing else of the
  block is run.
\<close>

definition processScan_try :: "env \<Rightarrow> job \<Rightarrow> world \<Rightarrow> (string + scan_result) \<times> world" where
  "processScan_try env job w =
     (case markScanStarted (job_scanId job) (env_NOW_started env) w of
        Inl err \<Rightarrow> (Inl err, w)
      | Inr w0 \<Rightarrow> resolve_and_scan env job w0)"

text \<open>
  \<^verbatim>\<open>processScan\<close>: the \<^verbatim>\<open>catch\<close> around the whole run marks the scan failed with
  the error's message and rethrows. For an id that the database does not read as a
  uuid, the statement of \<^verbatim>\<open>markScanFailed\<close> raises in its turn, and that error is the
  one \<^verbatim>\<open>processScan\<close> rejects with.
\<close>

definition processScan :: "env \<Rightarrow> job \<Rightarrow> world \<Rightarrow> (string + scan_result) \<times> world" where
  "processScan env job w =
     (case processScan_try env job w of
        (Inl err, w1) \<Rightarrow>
          if is_uuid (job_scanId job)
          then (Inl err, markScanFailed (job_scanId job) err (env_NOW_finished env) w1)
          else (Inl (invalid_uuid (job_scanId job)), w1)
      | (Inr r, w1) \<Rightarrow> (Inr r, w1))"

section \<open>The match list as the spec describes it\<close>


text \<open>
  The thumbnails for which the matcher reports a match, each with its confidence and
  metadata.
\<close>

definition reported :: "env \<Rightarrow> job \<Rightarrow> downloaded_photo \<Rightarrow> bool" where
  "reported env job photo =
     (case evaluate env job photo of Inl err \<Rightarrow> False | Inr r \<Rightarrow> isMatch r)"

definition reported_matches :: "env \<Rightarrow> job \<Rightarrow> downloaded_photo list \<Rightarrow> match_data list" where
  "reported_matches env job downloaded =
     List.map_filter
       (\<lambda>photo. case evaluate env job photo of
                   Inl err \<Rightarrow> None
                 | Inr r \<Rightarrow> if isMatch r then Some (match_entry photo r) else None)
       downloaded"

section \<open>The progress updates of the batch stage as the spec describes them\<close>

text \<open>
  The thumbnails that the batches from number \<open>j + 1\<close> on download, in the order in which
  they are evaluated, each with the number of its batch; batch \<open>j + 1\<close> is the slice of
  \<open>bsize\<close> items that starts at item \<open>j * bsize\<close>.
\<close>

definition tagged_downloads ::
  "env \<Rightarrow> media_item list \<Rightarrow> nat \<Rightarrow> nat \<Rightarrow> (nat \<times> downloaded_photo) list" where
  "tagged_downloads env allPhotos bsize j =
     concat (map (\<lambda>b. map (Pair (b + 1))
                        (download_all (env_downloadPhoto env)
                           (take bsize (drop (b * bsize) allPhotos))))
               [j..<ceil_div (length allPhotos) bsize])"

text \<open>
  One progress update for every \<open>k\<close> at which the running count of evaluated items,
  \<open>s + k\<close>, is a multiple of 10, where \<open>seq\<close> are the items evaluated from a moment at
  which the counters are \<open>t\<close>, \<open>s\<close>, \<open>m\<close> and \<open>u\<close>: the update carries the total, the
  running count, the matches reported up to and including item \<open>k\<close>, the uploaded count,
  the number of the batch of item \<open>k\<close> and the number of batches.
\<close>

definition updates_at_tens ::
  "env \<Rightarrow> job \<Rightarrow> nat \<Rightarrow> nat \<Rightarrow> nat \<Rightarrow> nat \<Rightarrow> nat \<Rightarrow> (nat \<times> downloaded_photo) list
     \<Rightarrow> progress list" where
  "updates_at_tens env job t s m u nbatches seq =
     map (\<lambda>k. \<lparr>totalPhotos = t, scannedPhotos = s + k,
                matchedPhotos = m + length (filter (\<lambda>x. reported env job (snd x)) (take k seq)),
                uploadedPhotos = u, currentBatch = fst (seq ! (k - 1)),
                totalBatches = nbatches\<rparr>)
       (filter (\<lambda>k. (s + k) mod 10 = 0) [1..<Suc (length seq)])"

text \<open>The updates of the batch stage of a run over the library \<open>allPhotos\<close>.\<close>

definition batch_stage_updates :: "env \<Rightarrow> job \<Rightarrow> media_item list \<Rightarrow> progress list" where
  "batch_stage_updates env job allPhotos =
     updates_at_tens env job (length allPhotos) 0 0 0
       (ceil_div (length allPhotos) (batchSize (env_BATCH_SIZE env)))
       (tagged_downloads env allPhotos (batchSize (env_BATCH_SIZE env)) 0)"

section \<open>Reading the record of a run\<close>

definition new_calls :: "world \<Rightarrow> world \<Rightarrow> event list" where
  "new_calls w w' = drop (length (calls w)) (calls w')"

definition progress_updates :: "event list \<Rightarrow> progress list" where
  "progress_updates evs =
     List.map_filter (\<lambda>e. case e of UpdateProgress p \<Rightarrow> Some p | _ \<Rightarrow> None) evs"

definition counters_le :: "'a counters_scheme \<Rightarrow> 'b counters_scheme \<Rightarrow> bool" where
  "counters_le a b \<longleftrightarrow>
     totalPhotos a \<le> totalPhotos b \<and> scannedPhotos a \<le> scannedPhotos b \<and>
     matchedPhotos a \<le> matchedPhotos b \<and> uploadedPhotos a \<le> uploadedPhotos b"

text \<open>
  A stretch of a run, from one state of the worker's variables and the stores to a later
  one: the counters have not decreased, and the progress updates written in between
  are ordered, lie between the counters before and after, and have a scanned count of at
  most the total.
\<close>

definition advances :: "locals \<times> world \<Rightarrow> locals \<times> world \<Rightarrow> bool" where
  "advances st st' \<longleftrightarrow>
     counters_le (fst st) (fst st') \<and>
     (\<exists>evs. calls (snd st') = calls (snd st) @ evs \<and>
        sorted_wrt counters_le (progress_updates evs) \<and>
        (\<forall>p\<in>set (progress_updates evs).
           counters_le (fst st) p \<and> counters_le p (fst st') \<and>
           scannedPhotos p \<le> totalPhotos p))"

text \<open>What an enumeration returns: the items of all pages, or the error of the failing request.\<close>

fun script_items :: "fetch_script \<Rightarrow> string + media_item list" where
  "script_items (RequestFails err) = Inl err"
| "script_items (LastPage items) = Inr items"
| "script_items (NextPage items rest) =
     (case script_items rest of Inl err \<Rightarrow> Inl err | Inr later \<Rightarrow> Inr (items @ later))"

text \<open>The progress update of an empty library.\<close>

definition zero_progress :: progress where
  "zero_progress =
     \<lparr>totalPhotos = 0, scannedPhotos = 0, matchedPhotos = 0, uploadedPhotos = 0,
      currentBatch = 0, totalBatches = 0\<rparr>"

text \<open>
  Two relations between an earlier and a later state of the stores: the scans table has
  the same rows and the record of calls has only grown; and, in addition, no matched
  photo has been saved.
\<close>

definition grows :: "world \<Rightarrow> world \<Rightarrow> bool" where
  "grows w w' \<longleftrightarrow> dom (scans_table w') = dom (scans_table w) \<and> (\<exists>evs. calls w' = calls w @ evs)"

definition stores_kept :: "world \<Rightarrow> world \<Rightarrow> bool" where
  "stores_kept w w' \<longleftrightarrow>
     matched_photos_table w' = matched_photos_table w \<and>
     dom (scans_table w') = dom (scans_table w) \<and>
     (\<exists>evs. calls w' = calls w @ evs)"

section \<open>Example states\<close>

definition example_scan :: scan where
  "example_scan =
     \<lparr>session_id = ''6ba7b810-9dad-41d1-80b4-00c04fd430c8'', started_at = Some 2, completed_at = Some 5,
      status = Cancelled, total_photos = 0, scanned_photos = 0, matched_photos = 0,
      uploaded_photos = 0, error_message = None, job_id = Some ''7c9e6679-7425-40de-944b-e07fc1f90ae7''\<rparr>"

definition example_world :: "scan_status \<Rightarrow> world" where
  "example_world st =
     \<lparr>scans_table = [''7c9e6679-7425-40de-944b-e07fc1f90ae7'' \<mapsto> example_scan\<lparr>status := st\<rparr>],
      matched_photos_table = [], redis = Map.empty, queue_jobs = {}, calls = []\<rparr>"

definition undecodable :: image_size where
  "undecodable b = Inl ''unsupported file type''"

definition throwing_detector :: "buffer option \<Rightarrow> string + face list" where
  "throwing_detector b = Inl ''model not loaded''"

definition example_item :: "string \<Rightarrow> media_item" where
  "example_item i =
     \<lparr>item_id = i, baseUrl = ''https://lh3.example/'' @ i, item_filename = Some (i @ ''.jpg''),
      item_mimeType = Some ''image/jpeg'', mediaMetadata = None\<rparr>"

definition example_photos :: "media_item list" where
  "example_photos =
     [example_item ''a'', example_item ''b'', example_item ''c'', example_item ''d'',
      example_item ''e'']"

text \<open>
  An environment in which the library has five items on two pages, every download and
  upload succeeds, batches have three items, and the matcher's random numbers make
  item d the only match.
\<close>

definition example_env :: env where
  "example_env =
     \<lparr>env_decrypt = (\<lambda>t. Inr ''access-token''),
      env_JSON_parse = (\<lambda>t. None),
      env_Date_now = 0,
      env_refreshAccessToken = (\<lambda>t. Inl ''invalid_grant''),
      env_mediaItems_search =
        (\<lambda>t. NextPage [example_item ''a'', example_item ''b'', example_item ''c'']
               (LastPage [example_item ''d'', example_item ''e''])),
      env_downloadPhoto = (\<lambda>u. Inr [255, 216]),
      env_downloadOriginalPhoto = (\<lambda>u. Inr [255, 216, 255]),
      env_sizeOf = (\<lambda>b. Inr (4, 3)),
      env_Math_random = (\<lambda>i. if i = ''d'' then (0.9, 0.5) else (0.1, 0.5)),
      env_uploadPhoto =
        (\<lambda>f attempt. Inr \<lparr>url = ''https://bucket/'' @ f, key = ''photos/'' @ f,
                           bucket = ''bucket''\<rparr>),
      env_BATCH_SIZE = Some 3,
      env_matchThreshold = matchThreshold,
      env_NOW_started = 10,
      env_NOW_finished = 20\<rparr>"

text \<open>The same environment with an empty library.\<close>

definition empty_library_env :: env where
  "empty_library_env = example_env\<lparr>env_mediaItems_search := (\<lambda>t. LastPage [])\<rparr>"

definition example_job :: job where
  "example_job =
     \<lparr>job_scanId = ''7c9e6679-7425-40de-944b-e07fc1f90ae7'', job_sessionId = ''6ba7b810-9dad-41d1-80b4-00c04fd430c8'', job_oauthToken = ''ciphertext'',
      job_referenceEmbeddings = []\<rparr>"

definition empty_world :: world where
  "empty_world =
     \<lparr>scans_table = Map.empty, matched_photos_table = [], redis = Map.empty,
      queue_jobs = {}, calls = []\<rparr>"

text \<open>
  Shorthands for the states of the example run: a progress update, the scan's row, the
  stores before the run and at a later moment.
\<close>

definition shown :: "nat \<Rightarrow> nat \<Rightarrow> nat \<Rightarrow> nat \<Rightarrow> nat \<Rightarrow> nat \<Rightarrow> progress" where
  "shown t s m u c n =
     \<lparr>totalPhotos = t, scannedPhotos = s, matchedPhotos = m, uploadedPhotos = u,
      currentBatch = c, totalBatches = n\<rparr>"

definition run_row :: "scan_status \<Rightarrow> nat option \<Rightarrow> nat option \<Rightarrow> nat \<Rightarrow> nat \<Rightarrow> nat \<Rightarrow> nat \<Rightarrow> scan" where
  "run_row st started completed t s m u =
     \<lparr>session_id = ''6ba7b810-9dad-41d1-80b4-00c04fd430c8'', started_at = started, completed_at = completed,
      status = st, total_photos = t, scanned_photos = s, matched_photos = m,
      uploaded_photos = u, error_message = None, job_id = Some ''7c9e6679-7425-40de-944b-e07fc1f90ae7''\<rparr>"

definition pending_world :: world where
  "pending_world =
     \<lparr>scans_table = [''7c9e6679-7425-40de-944b-e07fc1f90ae7'' \<mapsto> run_row Pending None None 0 0 0 0],
      matched_photos_table = [], redis = Map.empty, queue_jobs = {''7c9e6679-7425-40de-944b-e07fc1f90ae7''}, calls = []\<rparr>"

definition run_world :: "scan \<Rightarrow> matched_photo list \<Rightarrow> progress \<Rightarrow> event list \<Rightarrow> world" where
  "run_world row saved p evs =
     \<lparr>scans_table = [''7c9e6679-7425-40de-944b-e07fc1f90ae7'' \<mapsto> row], matched_photos_table = saved,
      redis = [''7c9e6679-7425-40de-944b-e07fc1f90ae7'' \<mapsto> (p, 86400)], queue_jobs = {''7c9e6679-7425-40de-944b-e07fc1f90ae7''}, calls = evs\<rparr>"

definition example_match :: match_data where
  "example_match =
     \<lparr>googlePhotoId = ''d'', googlePhotoUrl = ''https://lh3.example/d'', md_confidence = 0.9,
      md_metadata = \<lparr>creationTime = None, width = None, height = None,
                     filename = Some ''d.jpg'', mimeType = Some ''image/jpeg''\<rparr>\<rparr>"

definition example_upload_result :: upload_result where
  "example_upload_result =
     \<lparr>originalId = ''d'', success = True,
      stored = Some \<lparr>url = ''https://bucket/d.jpg'', key = ''photos/d.jpg'', bucket = ''bucket''\<rparr>,
      upload_error = None\<rparr>"

definition example_saved :: matched_photo where
  "example_saved =
     \<lparr>scan_id = ''7c9e6679-7425-40de-944b-e07fc1f90ae7'', google_photo_id = ''d'', google_photo_url = ''https://lh3.example/d'',
      s3_url = Some ''https://bucket/d.jpg'', s3_key = Some ''photos/d.jpg'',
      thumbnail_url = None, confidence_score = 0.9,
      metadata = \<lparr>creationTime = None, width = None, height = None,
                   filename = Some ''d.jpg'', mimeType = Some ''image/jpeg''\<rparr>\<rparr>"

definition calls_of_fetch :: "event list" where
  "calls_of_fetch = [FetchAllPhotos, UpdateProgress (shown 3 0 0 0 0 0), UpdateProgress (shown 5 0 0 0 0 0)]"

definition calls_of_scan :: "event list" where
  "calls_of_scan =
     [UpdateProgress (shown 5 0 0 0 0 2),
      DownloadPhotosInBatches [''a'', ''b'', ''c''], MatchFace ''a'', MatchFace ''b'', MatchFace ''c'',
      DownloadPhotosInBatches [''d'', ''e''], MatchFace ''d'', MatchFace ''e'',
      ScanningComplete [example_match]]"

definition calls_of_upload :: "event list" where
  "calls_of_upload =
     [DownloadOriginalPhotos [''d''], UploadPhotosInBatch [''d''], UpdateProgress (shown 5 5 1 1 2 2),
      UploadResults [example_upload_result], CreateMatchedPhotos 1,
      UpdateProgress (shown 5 5 1 1 2 2)]"

text \<open>
  The stores before a run on a scan that is queued, with the scan's row and the matched
  photos saved so far.
\<close>

definition queued_world :: "scan \<Rightarrow> matched_photo list \<Rightarrow> world" where
  "queued_world row saved =
     \<lparr>scans_table = [''7c9e6679-7425-40de-944b-e07fc1f90ae7'' \<mapsto> row],
      matched_photos_table = saved, redis = Map.empty,
      queue_jobs = {''7c9e6679-7425-40de-944b-e07fc1f90ae7''}, calls = []\<rparr>"



text \<open>
  An environment in which the library has twelve items on two pages, batches have four
  items, and the matcher's random numbers make items c and k the matches.
\<close>

definition album_photos :: "media_item list" where
  "album_photos =
     map example_item
       [''a'', ''b'', ''c'', ''d'', ''e'', ''f'', ''g'', ''h'', ''i'', ''j'', ''k'', ''l'']"

definition album_env :: env where
  "album_env =
     example_env
       \<lparr>env_mediaItems_search :=
          (\<lambda>t. NextPage (take 6 album_photos) (LastPage (drop 6 album_photos))),
        env_Math_random := (\<lambda>i. if i = ''c'' \<or> i = ''k'' then (0.9, 0.5) else (0.1, 0.5)),
        env_BATCH_SIZE := Some 4\<rparr>"

text \<open>A job whose scan id is not the text of a uuid.\<close>

definition misnamed_job :: job where
  "misnamed_job = example_job\<lparr>job_scanId := ''scan-1''\<rparr>"

definition always_failing :: uploader where
  "always_failing attempt =
     Inl (if attempt = 1 then ''timeout'' else if attempt = 2 then ''reset'' else ''denied'')"

section \<open>Properties of the scan state machine\<close>

lemma update_row_lookup:
  "scans_table (update_row scanId f w) k =
     (if k = scanId then map_option f (scans_table w k) else scans_table w k)"
  by (simp add: update_row_def split: option.splits)

text \<open>
  C1, as the spec states it, fails on a scan that is already cancelled: the route
  rejects only \<^verbatim>\<open>completed\<close> and \<^verbatim>\<open>failed\<close>, so a second cancel answers 200 and
  overwrites \<^verbatim>\<open>completed_at\<close>.
\<close>

theorem cancel_cancelled_scan_accepted:
  "status (the (scans_table (example_world Cancelled) ''7c9e6679-7425-40de-944b-e07fc1f90ae7'')) = Cancelled
   \<and> http_status (fst (cancel_route ''7c9e6679-7425-40de-944b-e07fc1f90ae7'' 9 (example_world Cancelled))) = 200
   \<and> completed_at (the (scans_table (example_world Cancelled) ''7c9e6679-7425-40de-944b-e07fc1f90ae7'')) = Some 5
   \<and> completed_at (the (scans_table (snd (cancel_route ''7c9e6679-7425-40de-944b-e07fc1f90ae7'' 9 (example_world Cancelled)))
        ''7c9e6679-7425-40de-944b-e07fc1f90ae7'')) = Some 9"
  by (simp add: example_world_def example_scan_def cancel_route_def getScanById_def
      truthy_def cancelJob_def update_row_def)

text \<open>
  C1 (amended): for every scan whose status is completed or failed, a cancel request
  returns the explicit rejection (HTTP 400, "Cannot cancel") and leaves the whole state
  unchanged.
\<close>

theorem cancel_completed_or_failed_rejected:
  assumes "scans_table w scanId = Some s"
    and "status s = Completed \<or> status s = Failed"
  shows "cancel_route scanId now w =
           (\<lparr>http_status = 400, body_error = Some ''Cannot cancel'',
             body_message = ''Scan is already completed or failed''\<rparr>, w)"
  using assms by (auto simp: cancel_route_def getScanById_def)

theorem cancel_completed_or_failed_rejected_witness:
  "scans_table (example_world Completed) ''7c9e6679-7425-40de-944b-e07fc1f90ae7'' = Some (example_scan\<lparr>status := Completed\<rparr>)
   \<and> status (example_scan\<lparr>status := Completed\<rparr>) = Completed
   \<and> cancel_route ''7c9e6679-7425-40de-944b-e07fc1f90ae7'' 9 (example_world Completed) =
       (\<lparr>http_status = 400, body_error = Some ''Cannot cancel'',
         body_message = ''Scan is already completed or failed''\<rparr>, example_world Completed)"
proof -
  have h1: "scans_table (example_world Completed) ''7c9e6679-7425-40de-944b-e07fc1f90ae7''
              = Some (example_scan\<lparr>status := Completed\<rparr>)"
    by (simp add: example_world_def)
  have h2: "status (example_scan\<lparr>status := Completed\<rparr>) = Completed \<or>
            status (example_scan\<lparr>status := Completed\<rparr>) = Failed"
    by simp
  from cancel_completed_or_failed_rejected [OF h1 h2, of 9] h1 show ?thesis
    by simp
qed

text \<open>
  C2, as the spec states it, fails: \<^verbatim>\<open>markScanCompleted\<close> and \<^verbatim>\<open>markScanFailed\<close> update
  the row whatever its status. A scan cancelled while its run is in progress becomes
  completed when the run ends.
\<close>

theorem completion_overwrites_cancelled:
  "status (the (scans_table (snd (cancel_route ''7c9e6679-7425-40de-944b-e07fc1f90ae7'' 9 (example_world Processing)))
      ''7c9e6679-7425-40de-944b-e07fc1f90ae7'')) = Cancelled
   \<and> status (the (scans_table
        (markScanCompleted ''7c9e6679-7425-40de-944b-e07fc1f90ae7'' 12 (snd (cancel_route ''7c9e6679-7425-40de-944b-e07fc1f90ae7'' 9 (example_world Processing))))
        ''7c9e6679-7425-40de-944b-e07fc1f90ae7'')) = Completed"
  by (simp add: example_world_def example_scan_def cancel_route_def getScanById_def
      truthy_def cancelJob_def update_row_def markScanCompleted_def)

text \<open>
  C2 (amended): once a scan's status is completed, failed or cancelled, a progress
  write and a cancel request leave the status as it is; the orchestrator's completion
  and failure marking set it to completed and to failed, whatever it was.
\<close>

theorem terminal_status_after_operations:
  assumes "scans_table w scanId = Some s"
    and "status s = Completed \<or> status s = Failed \<or> status s = Cancelled"
  shows "map_option status (scans_table (updateScanProgress scanId tp sp mp up w) scanId)
           = Some (status s)
       \<and> map_option status (scans_table (snd (cancel_route scanId now w)) scanId)
           = Some (status s)
       \<and> map_option status (scans_table (markScanCompleted scanId now w) scanId)
           = Some Completed
       \<and> map_option status (scans_table (markScanFailed scanId msg now w) scanId)
           = Some Failed"
proof -
  have "map_option status (scans_table (updateScanProgress scanId tp sp mp up w) scanId)
          = Some (status s)"
    using assms(1) by (simp add: updateScanProgress_def update_row_lookup)
  moreover have "map_option status (scans_table (snd (cancel_route scanId now w)) scanId)
          = Some (status s)"
    using assms
    by (auto simp: cancel_route_def getScanById_def Let_def update_row_lookup cancelJob_def)
  moreover have "map_option status (scans_table (markScanCompleted scanId now w) scanId)
          = Some Completed"
    using assms(1) by (simp add: markScanCompleted_def update_row_lookup)
  moreover have "map_option status (scans_table (markScanFailed scanId msg now w) scanId)
          = Some Failed"
    using assms(1) by (simp add: markScanFailed_def update_row_lookup)
  ultimately show ?thesis by simp
qed

theorem terminal_status_after_operations_witness:
  "scans_table (example_world Cancelled) ''7c9e6679-7425-40de-944b-e07fc1f90ae7'' = Some example_scan
   \<and> status example_scan = Cancelled
   \<and> map_option status (scans_table
        (updateScanProgress ''7c9e6679-7425-40de-944b-e07fc1f90ae7'' (Some 7) (Some 3) (Some 1) None (example_world Cancelled))
        ''7c9e6679-7425-40de-944b-e07fc1f90ae7'') = Some Cancelled
   \<and> map_option status (scans_table (snd (cancel_route ''7c9e6679-7425-40de-944b-e07fc1f90ae7'' 9 (example_world Cancelled)))
        ''7c9e6679-7425-40de-944b-e07fc1f90ae7'') = Some Cancelled
   \<and> map_option status (scans_table (markScanCompleted ''7c9e6679-7425-40de-944b-e07fc1f90ae7'' 9 (example_world Cancelled))
        ''7c9e6679-7425-40de-944b-e07fc1f90ae7'') = Some Completed
   \<and> map_option status (scans_table
        (markScanFailed ''7c9e6679-7425-40de-944b-e07fc1f90ae7'' ''boom'' 9 (example_world Cancelled)) ''7c9e6679-7425-40de-944b-e07fc1f90ae7'') = Some Failed"
proof -
  have h1: "scans_table (example_world Cancelled) ''7c9e6679-7425-40de-944b-e07fc1f90ae7'' = Some example_scan"
    by (simp add: example_world_def example_scan_def)
  have h2: "status example_scan = Cancelled"
    by (simp add: example_scan_def)
  from h2 have h3: "status example_scan = Completed \<or> status example_scan = Failed
      \<or> status example_scan = Cancelled"
    by simp
  from terminal_status_after_operations [OF h1 h3, of "Some 7" "Some 3" "Some 1" None 9 "''boom''"]
    h1 h2 show ?thesis
    by simp
qed

section \<open>Properties of the matcher\<close>


lemma detectFaces_bad_input:
  assumes "imageBuffer = None \<or> imageBuffer = Some [] \<or>
           (\<exists>b err. imageBuffer = Some b \<and> sizeOf b = Inl err)"
  shows "detectFaces sizeOf imageBuffer = Inr []"
  using assms
  by (auto simp: detectFaces_def detectFaces_try_def split: sum.splits option.splits)

text \<open>
  C10: \<^verbatim>\<open>matchFace\<close> never throws. For a null, an empty or an undecodable buffer it
  returns the non-match result (isMatch false, confidence 0, facesDetected 0); and
  whatever the detector it calls does, an error thrown inside is caught and turned into
  that same non-match result.
\<close>

theorem matchFace_never_throws:
  "(\<exists>r. matchFace sizeOf imageBuffer refs rnd = Inr r)
   \<and> ((imageBuffer = None \<or> imageBuffer = Some [] \<or>
        (\<exists>b err. imageBuffer = Some b \<and> sizeOf b = Inl err))
      \<longrightarrow> matchFace sizeOf imageBuffer refs rnd = Inr (no_match None))
   \<and> (\<exists>r. matchFace_with detect imageBuffer refs rnd = Inr r
        \<and> (isl (detect imageBuffer)
             \<longrightarrow> \<not> isMatch r \<and> confidence r = 0 \<and> facesDetected r = 0))
   \<and> \<not> isMatch (no_match e) \<and> confidence (no_match e) = 0 \<and> facesDetected (no_match e) = 0"
proof -
  have total: "\<exists>r. matchFace sizeOf imageBuffer refs rnd = Inr r"
    by (simp add: matchFace_def matchFace_with_def split: sum.splits)
  have bad: "(imageBuffer = None \<or> imageBuffer = Some [] \<or>
        (\<exists>b err. imageBuffer = Some b \<and> sizeOf b = Inl err))
      \<longrightarrow> matchFace sizeOf imageBuffer refs rnd = Inr (no_match None)"
  proof
    assume "imageBuffer = None \<or> imageBuffer = Some [] \<or>
        (\<exists>b err. imageBuffer = Some b \<and> sizeOf b = Inl err)"
    then have "detectFaces sizeOf imageBuffer = Inr []"
      by (rule detectFaces_bad_input)
    then show "matchFace sizeOf imageBuffer refs rnd = Inr (no_match None)"
      by (simp add: matchFace_def matchFace_with_def matchFace_try_def)
  qed
  have caught: "\<exists>r. matchFace_with detect imageBuffer refs rnd = Inr r
        \<and> (isl (detect imageBuffer)
             \<longrightarrow> \<not> isMatch r \<and> confidence r = 0 \<and> facesDetected r = 0)"
    by (cases "detect imageBuffer")
       (auto simp: matchFace_with_def matchFace_try_def no_match_def Let_def split: sum.splits)
  from total bad caught show ?thesis
    by (simp add: no_match_def)
qed

theorem matchFace_never_throws_witness:
  "matchFace undecodable (Some [1, 2, 3]) [] (0.5, 0.5) = Inr (no_match None)
   \<and> matchFace undecodable None [] (0.5, 0.5) = Inr (no_match None)
   \<and> isl (throwing_detector (Some [1, 2, 3]))
   \<and> (\<exists>r. matchFace_with throwing_detector (Some [1, 2, 3]) [] (0.5, 0.5) = Inr r
        \<and> \<not> isMatch r \<and> confidence r = 0 \<and> facesDetected r = 0)"
proof -
  have h1: "Some [1, 2, 3] = None \<or> Some [1, 2, 3 :: 8 word] = Some [] \<or>
        (\<exists>b err. Some [1, 2, 3] = Some b \<and> undecodable b = Inl err)"
    by (simp add: undecodable_def)
  have h2: "isl (throwing_detector (Some [1, 2, 3]))"
    by (simp add: throwing_detector_def)
  from matchFace_never_throws
         [of undecodable "Some [1, 2, 3]" "[]" "(0.5, 0.5)" throwing_detector None]
       matchFace_never_throws [of undecodable None "[]" "(0.5, 0.5)" throwing_detector None]
       h1 h2
  show ?thesis
    by auto
qed

section \<open>Properties of the upload retry\<close>

text \<open>
  C9: when every attempt fails, \<^verbatim>\<open>uploadPhotoWithRetry\<close> with the default of 3
  attempts calls the store exactly three times, waits 1000 ms after the first failure
  and 2000 ms after the second, and throws the error of the third attempt.
\<close>

theorem upload_retry_three_attempts:
  assumes "uploadPhoto 1 = Inl e1" and "uploadPhoto 2 = Inl e2" and "uploadPhoto 3 = Inl e3"
  shows "uploadPhotoWithRetry uploadPhoto default_maxRetries =
           (Inl e3, [Attempt 1, Wait 1000, Attempt 2, Wait 2000, Attempt 3])"
proof -
  have three: "retry_loop uploadPhoto 3 3 = (Inl e3, [Attempt 3])"
    using assms(3) by (subst retry_loop.simps) simp
  have two: "retry_loop uploadPhoto 3 2 = (Inl e3, [Attempt 2, Wait 2000, Attempt 3])"
    using assms(2) three by (subst retry_loop.simps) (simp add: numeral_3_eq_3)
  have "retry_loop uploadPhoto 3 1 =
          (Inl e3, [Attempt 1, Wait 1000, Attempt 2, Wait 2000, Attempt 3])"
    using assms(1) two by (subst retry_loop.simps) (simp add: numeral_2_eq_2)
  then show ?thesis
    by (simp add: uploadPhotoWithRetry_def default_maxRetries_def)
qed

theorem upload_retry_three_attempts_witness:
  "always_failing 1 = Inl ''timeout'' \<and> always_failing 2 = Inl ''reset''
   \<and> always_failing 3 = Inl ''denied''
   \<and> uploadPhotoWithRetry always_failing default_maxRetries =
       (Inl ''denied'', [Attempt 1, Wait 1000, Attempt 2, Wait 2000, Attempt 3])"
proof -
  have h1: "always_failing 1 = Inl ''timeout''" by (simp add: always_failing_def)
  have h2: "always_failing 2 = Inl ''reset''" by (simp add: always_failing_def)
  have h3: "always_failing 3 = Inl ''denied''" by (simp add: always_failing_def)
  from upload_retry_three_attempts [OF h1 h2 h3] h1 h2 h3 show ?thesis
    by simp
qed

section \<open>The record of calls and the store\<close>

lemma update_row_frame [simp]:
  "calls (update_row scanId f w) = calls w"
  "matched_photos_table (update_row scanId f w) = matched_photos_table w"
  "redis (update_row scanId f w) = redis w"
  "queue_jobs (update_row scanId f w) = queue_jobs w"
  by (simp_all add: update_row_def split: option.splits)

lemma scan_model_frame [simp]:
  "calls (updateScanProgress scanId tp sp mp up w) = calls w"
  "matched_photos_table (updateScanProgress scanId tp sp mp up w) = matched_photos_table w"
  "calls (markScanCompleted scanId now w) = calls w"
  "matched_photos_table (markScanCompleted scanId now w) = matched_photos_table w"
  "calls (markScanFailed scanId msg now w) = calls w"
  "matched_photos_table (markScanFailed scanId msg now w) = matched_photos_table w"
  by (simp_all add: updateScanProgress_def markScanCompleted_def markScanFailed_def)

lemma markScanStarted_Inr:
  assumes "markScanStarted scanId now w = Inr w0"
  shows "is_uuid scanId"
    and "w0 = update_row scanId (\<lambda>s. s\<lparr>status := Processing, started_at := Some now\<rparr>) w"
    and "calls w0 = calls w"
    and "matched_photos_table w0 = matched_photos_table w"
  using assms by (auto simp: markScanStarted_def split: if_splits)

lemma markScanStarted_uuid:
  assumes "is_uuid scanId"
  shows "markScanStarted scanId now w =
           Inr (update_row scanId (\<lambda>s. s\<lparr>status := Processing, started_at := Some now\<rparr>) w)"
  using assms by (simp add: markScanStarted_def)

lemma markScanStarted_Inl:
  assumes "markScanStarted scanId now w = Inl err"
  shows "\<not> is_uuid scanId" and "err = invalid_uuid scanId"
  using assms by (auto simp: markScanStarted_def split: if_splits)

lemma record_call_frame [simp]:
  "calls (record_call e w) = calls w @ [e]"
  "matched_photos_table (record_call e w) = matched_photos_table w"
  "scans_table (record_call e w) = scans_table w"
  by (simp_all add: record_call_def)

lemma updateProgress_frame [simp]:
  "calls (updateProgress scanId p w) = calls w @ [UpdateProgress p]"
  "matched_photos_table (updateProgress scanId p w) = matched_photos_table w"
  by (simp_all add: updateProgress_def)

lemma progress_updates_simps [simp]:
  "progress_updates [] = []"
  "progress_updates (UpdateProgress p # evs) = p # progress_updates evs"
  "progress_updates (FetchAllPhotos # evs) = progress_updates evs"
  "progress_updates (JobProgress # evs) = progress_updates evs"
  "progress_updates (DownloadPhotosInBatches ids # evs) = progress_updates evs"
  "progress_updates (MatchFace i # evs) = progress_updates evs"
  "progress_updates (ScanningComplete ms # evs) = progress_updates evs"
  "progress_updates (DownloadOriginalPhotos ids # evs) = progress_updates evs"
  "progress_updates (UploadPhotosInBatch ids # evs) = progress_updates evs"
  "progress_updates (UploadResults rs # evs) = progress_updates evs"
  "progress_updates (CreateMatchedPhotos n # evs) = progress_updates evs"
  by (simp_all add: progress_updates_def List.map_filter_simps)

lemma progress_updates_append [simp]:
  "progress_updates (xs @ ys) = progress_updates xs @ progress_updates ys"
  by (simp add: progress_updates_def List.map_filter_def)

lemma new_calls_append: "calls w' = calls w @ evs \<Longrightarrow> new_calls w w' = evs"
  by (simp add: new_calls_def)

lemma map_filter_append:
  "List.map_filter f (xs @ ys) = List.map_filter f xs @ List.map_filter f ys"
  by (simp add: List.map_filter_def)

lemma matchFace_returns: "\<exists>r. matchFace sizeOf imageBuffer refs rnd = Inr r"
  by (simp add: matchFace_def matchFace_with_def split: sum.splits)

lemma evaluate_returns: "\<exists>r. evaluate env job photo = Inr r"
  by (simp add: evaluate_def matchFace_returns)


lemma reported_matches_Cons:
  assumes "evaluate env job photo = Inr r"
  shows "reported_matches env job (photo # photos) =
           (if isMatch r then [match_entry photo r] else []) @ reported_matches env job photos"
  using assms by (simp add: reported_matches_def List.map_filter_simps)

lemma scan_downloaded_data:
  "matchedPhotosData (fst (scan_downloaded env job current nbatches photos st)) =
     matchedPhotosData (fst st) @ reported_matches env job photos"
proof (induction photos arbitrary: st)
  case Nil
  show ?case by (simp add: reported_matches_def List.map_filter_simps)
next
  case (Cons photo photos)
  obtain r where r: "evaluate env job photo = Inr r"
    using evaluate_returns by blast
  show ?case
    using r by (simp add: Cons.IH reported_matches_Cons [OF r] Let_def)
qed

lemma download_all_append:
  "download_all d (xs @ ys) = download_all d xs @ download_all d ys"
  by (simp add: download_all_def map_filter_append)

lemma reported_matches_append:
  "reported_matches env job (xs @ ys) = reported_matches env job xs @ reported_matches env job ys"
  by (simp add: reported_matches_def map_filter_append)

lemma batchSize_positive: "0 < batchSize v"
  by (simp add: batchSize_def split: option.splits)

lemma process_batches_data:
  assumes "0 < bsize"
  shows "matchedPhotosData (fst (process_batches env job allPhotos bsize nbatches i st)) =
           matchedPhotosData (fst st)
             @ reported_matches env job (download_all (env_downloadPhoto env) (drop i allPhotos))"
  using assms
proof (induction env job allPhotos bsize nbatches i st rule: process_batches.induct)
  case (1 env job allPhotos bsize nbatches i st)
  show ?case
  proof (cases "i < length allPhotos")
    case True
    have split: "drop i allPhotos = take bsize (drop i allPhotos) @ drop (i + bsize) allPhotos"
      by (metis append_take_drop_id drop_drop add.commute)
    have step: "process_batches env job allPhotos bsize nbatches i st =
        process_batches env job allPhotos bsize nbatches (i + bsize)
          (scan_downloaded env job (i div bsize + 1) nbatches
             (download_all (env_downloadPhoto env) (take bsize (drop i allPhotos)))
             (fst st, record_call (DownloadPhotosInBatches
                 (map item_id (take bsize (drop i allPhotos)))) (snd st)))"
      using True "1.prems" by (subst process_batches.simps) (simp add: Let_def)
    have "matchedPhotosData (fst (process_batches env job allPhotos bsize nbatches i st)) =
        (matchedPhotosData (fst st)
           @ reported_matches env job
               (download_all (env_downloadPhoto env) (take bsize (drop i allPhotos))))
           @ reported_matches env job
               (download_all (env_downloadPhoto env) (drop (i + bsize) allPhotos))"
      unfolding step
      using "1.IH" [OF _ refl refl refl refl "1.prems"] True "1.prems"
      by (simp add: scan_downloaded_data del: process_batches.simps)
    also have "\<dots> = matchedPhotosData (fst st)
           @ reported_matches env job (download_all (env_downloadPhoto env) (drop i allPhotos))"
      using arg_cong [OF split,
          of "\<lambda>xs. reported_matches env job (download_all (env_downloadPhoto env) xs)"]
      by (simp add: download_all_append reported_matches_append)
    finally show ?thesis .
  next
    case False
    then show ?thesis
      by (simp add: download_all_def reported_matches_def List.map_filter_simps)
  qed
qed


section \<open>Progress updates of a run\<close>

lemma counters_le_refl [simp]: "counters_le a a"
  by (simp add: counters_le_def)

lemma counters_le_trans: "counters_le a b \<Longrightarrow> counters_le b c \<Longrightarrow> counters_le a c"
  by (simp add: counters_le_def)

lemma counters_le_snapshot [simp]:
  "counters_le (snapshot l c n) a = counters_le l a"
  "counters_le a (snapshot l c n) = counters_le a l"
  by (simp_all add: counters_le_def snapshot_def)

lemma snapshot_fields [simp]:
  "totalPhotos (snapshot l c n) = totalPhotos l"
  "scannedPhotos (snapshot l c n) = scannedPhotos l"
  "matchedPhotos (snapshot l c n) = matchedPhotos l"
  "uploadedPhotos (snapshot l c n) = uploadedPhotos l"
  "currentBatch (snapshot l c n) = c"
  "totalBatches (snapshot l c n) = n"
  by (simp_all add: snapshot_def)

lemma advances_refl [simp]: "advances st st"
  by (simp add: advances_def)

lemma advances_trans:
  assumes "advances a b" and "advances b c"
  shows "advances a c"
proof -
  from assms(1) obtain e1 where e1: "calls (snd b) = calls (snd a) @ e1"
    "sorted_wrt counters_le (progress_updates e1)"
    "\<forall>p\<in>set (progress_updates e1).
       counters_le (fst a) p \<and> counters_le p (fst b) \<and> scannedPhotos p \<le> totalPhotos p"
    and ab: "counters_le (fst a) (fst b)"
    unfolding advances_def by blast
  from assms(2) obtain e2 where e2: "calls (snd c) = calls (snd b) @ e2"
    "sorted_wrt counters_le (progress_updates e2)"
    "\<forall>p\<in>set (progress_updates e2).
       counters_le (fst b) p \<and> counters_le p (fst c) \<and> scannedPhotos p \<le> totalPhotos p"
    and bc: "counters_le (fst b) (fst c)"
    unfolding advances_def by blast
  have ac: "counters_le (fst a) (fst c)"
    using ab bc by (rule counters_le_trans)
  have calls: "calls (snd c) = calls (snd a) @ (e1 @ e2)"
    using e1(1) e2(1) by simp
  have cross: "\<forall>x\<in>set (progress_updates e1). \<forall>y\<in>set (progress_updates e2). counters_le x y"
  proof (intro ballI)
    fix x y
    assume "x \<in> set (progress_updates e1)" and "y \<in> set (progress_updates e2)"
    with e1(3) e2(3) have "counters_le x (fst b)" and "counters_le (fst b) y"
      by simp_all
    then show "counters_le x y" by (rule counters_le_trans)
  qed
  have sorted: "sorted_wrt counters_le (progress_updates (e1 @ e2))"
    using e1(2) e2(2) cross by (simp add: sorted_wrt_append)
  have bounds: "\<forall>p\<in>set (progress_updates (e1 @ e2)).
       counters_le (fst a) p \<and> counters_le p (fst c) \<and> scannedPhotos p \<le> totalPhotos p"
  proof
    fix p
    assume "p \<in> set (progress_updates (e1 @ e2))"
    then consider "p \<in> set (progress_updates e1)" | "p \<in> set (progress_updates e2)"
      by auto
    then show "counters_le (fst a) p \<and> counters_le p (fst c) \<and> scannedPhotos p \<le> totalPhotos p"
    proof cases
      case 1
      with e1(3) have p: "counters_le (fst a) p" "counters_le p (fst b)"
        "scannedPhotos p \<le> totalPhotos p"
        by simp_all
      from p(2) bc have "counters_le p (fst c)" by (rule counters_le_trans)
      with p show ?thesis by simp
    next
      case 2
      with e2(3) have p: "counters_le (fst b) p" "counters_le p (fst c)"
        "scannedPhotos p \<le> totalPhotos p"
        by simp_all
      from ab p(1) have "counters_le (fst a) p" by (rule counters_le_trans)
      with p show ?thesis by simp
    qed
  qed
  show ?thesis
    unfolding advances_def using ac calls sorted bounds by blast
qed

lemma advances_quiet:
  assumes "counters_le l l'" and "calls w' = calls w @ evs" and "progress_updates evs = []"
  shows "advances (l, w) (l', w')"
  unfolding advances_def using assms by auto

lemma advances_push:
  assumes "counters_le l l'" and "calls w' = calls w @ evs"
    and "progress_updates evs = [snapshot l' c n]"
    and "scannedPhotos l' \<le> totalPhotos l'"
  shows "advances (l, w) (l', w')"
  unfolding advances_def using assms by auto

lemma on_fetch_progress_advances:
  assumes "totalPhotos (fst st) \<le> n" and "scannedPhotos (fst st) = 0"
  shows "advances st (on_fetch_progress scanId n pageCount st)"
proof -
  let ?l = "(fst st)\<lparr>totalPhotos := n\<rparr>"
  have "advances (fst st, snd st) (?l, updateProgress scanId (snapshot ?l 0 0) (snd st))"
  proof (rule advances_push)
    show "counters_le (fst st) ?l"
      using assms(1) by (simp add: counters_le_def)
    show "calls (updateProgress scanId (snapshot ?l 0 0) (snd st))
            = calls (snd st) @ [UpdateProgress (snapshot ?l 0 0)]"
      by simp
    show "progress_updates [UpdateProgress (snapshot ?l 0 0)] = [snapshot ?l 0 0]"
      by simp
    show "scannedPhotos ?l \<le> totalPhotos ?l"
      using assms(2) by simp
  qed
  then show ?thesis
    by (simp add: on_fetch_progress_def Let_def)
qed

lemma on_fetch_progress_locals [simp]:
  "fst (on_fetch_progress scanId n pageCount st) = (fst st)\<lparr>totalPhotos := n\<rparr>"
  by (simp add: on_fetch_progress_def Let_def)

lemma fetchAllPhotos_advances:
  assumes "totalPhotos (fst st) \<le> length photos" and "scannedPhotos (fst st) = 0"
  shows "advances st (snd (fetchAllPhotos script (on_fetch_progress scanId) photos pageCount st))"
  using assms
proof (induction script arbitrary: photos pageCount st)
  case (LastPage items)
  then show ?case
    by (simp add: on_fetch_progress_advances)
next
  case (NextPage items rest)
  let ?st1 = "on_fetch_progress scanId (length (photos @ items)) (pageCount + 1) st"
  have a1: "advances st ?st1"
    using NextPage.prems by (intro on_fetch_progress_advances) simp_all
  have a2: "advances ?st1
      (snd (fetchAllPhotos rest (on_fetch_progress scanId) (photos @ items) (pageCount + 1) ?st1))"
    using NextPage.prems by (intro NextPage.IH) simp_all
  from a1 a2 show ?case
    by (simp add: advances_trans)
next
  case (RequestFails err)
  show ?case by simp
qed

lemma fetchAllPhotos_locals:
  "\<exists>n. fst (snd (fetchAllPhotos script (on_fetch_progress scanId) photos pageCount st))
          = (fst st)\<lparr>totalPhotos := n\<rparr>
      \<and> (\<forall>allPhotos.
            fst (fetchAllPhotos script (on_fetch_progress scanId) photos pageCount st) = Inr allPhotos
            \<longrightarrow> n = length allPhotos)"
proof (induction script arbitrary: photos pageCount st)
  case (LastPage items)
  show ?case by auto
next
  case (NextPage items rest)
  from NextPage.IH [of "photos @ items" "pageCount + 1"
      "on_fetch_progress scanId (length (photos @ items)) (pageCount + 1) st"]
  show ?case by auto
next
  case (RequestFails err)
  have "fst st = (fst st)\<lparr>totalPhotos := totalPhotos (fst st)\<rparr>" by simp
  then have "\<exists>n. fst st = (fst st)\<lparr>totalPhotos := n\<rparr>" by (rule exI)
  then show ?case by simp
qed

lemma scan_downloaded_step:
  assumes "evaluate env job photo = Inr r"
  shows "scan_downloaded env job current nbatches (photo # photos) st =
           scan_downloaded env job current nbatches photos
             (let l1 = (fst st)\<lparr>scannedPhotos := scannedPhotos (fst st) + 1\<rparr>;
                  l2 = (if isMatch r
                        then l1\<lparr>matchedPhotos := matchedPhotos l1 + 1,
                                matchedPhotosData := matchedPhotosData l1 @ [match_entry photo r]\<rparr>
                        else l1)
              in (l2,
                  if scannedPhotos l2 mod 10 = 0
                  then record_call JobProgress
                         (updateProgress (job_scanId job) (snapshot l2 current nbatches)
                            (record_call (MatchFace (dl_id photo)) (snd st)))
                  else record_call (MatchFace (dl_id photo)) (snd st)))"
  using assms by (simp add: Let_def)

lemma scan_downloaded_advances:
  assumes "scannedPhotos (fst st) + length photos \<le> totalPhotos (fst st)"
  shows "advances st (scan_downloaded env job current nbatches photos st)"
  using assms
proof (induction photos arbitrary: st)
  case Nil
  show ?case by simp
next
  case (Cons photo photos)
  obtain r where r: "evaluate env job photo = Inr r"
    using evaluate_returns by blast
  define l1 where "l1 = (fst st)\<lparr>scannedPhotos := scannedPhotos (fst st) + 1\<rparr>"
  define l2 where "l2 = (if isMatch r
                        then l1\<lparr>matchedPhotos := matchedPhotos l1 + 1,
                                matchedPhotosData := matchedPhotosData l1 @ [match_entry photo r]\<rparr>
                        else l1)"
  define w0 where "w0 = record_call (MatchFace (dl_id photo)) (snd st)"
  define w1 where "w1 = (if scannedPhotos l2 mod 10 = 0
                  then record_call JobProgress
                         (updateProgress (job_scanId job) (snapshot l2 current nbatches) w0)
                  else w0)"
  have step: "scan_downloaded env job current nbatches (photo # photos) st =
                scan_downloaded env job current nbatches photos (l2, w1)"
    unfolding scan_downloaded_step [OF r] by (simp add: l1_def l2_def w0_def w1_def Let_def)
  have l2: "totalPhotos l2 = totalPhotos (fst st)" "scannedPhotos l2 = scannedPhotos (fst st) + 1"
    "counters_le (fst st) l2"
    by (simp_all add: l1_def l2_def counters_le_def)
  have a1: "advances (fst st, snd st) (l2, w1)"
  proof (cases "scannedPhotos l2 mod 10 = 0")
    case True
    show ?thesis
    proof (rule advances_push)
      show "counters_le (fst st) l2" by (rule l2)
      show "calls w1 = calls (snd st) @ [MatchFace (dl_id photo),
              UpdateProgress (snapshot l2 current nbatches), JobProgress]"
        using True by (simp add: w1_def w0_def)
      show "progress_updates [MatchFace (dl_id photo),
              UpdateProgress (snapshot l2 current nbatches), JobProgress]
              = [snapshot l2 current nbatches]"
        by simp
      show "scannedPhotos l2 \<le> totalPhotos l2"
        using Cons.prems l2 by simp
    qed
  next
    case False
    show ?thesis
    proof (rule advances_quiet)
      show "counters_le (fst st) l2" by (rule l2)
      show "calls w1 = calls (snd st) @ [MatchFace (dl_id photo)]"
        using False by (simp add: w1_def w0_def)
      show "progress_updates [MatchFace (dl_id photo)] = []" by simp
    qed
  qed
  have a2: "advances (l2, w1) (scan_downloaded env job current nbatches photos (l2, w1))"
    using Cons.prems l2 by (intro Cons.IH) simp
  from a1 a2 show ?case
    unfolding step by (simp add: advances_trans)
qed

lemma scan_downloaded_counters:
  "scannedPhotos (fst (scan_downloaded env job current nbatches photos st))
     = scannedPhotos (fst st) + length photos
   \<and> totalPhotos (fst (scan_downloaded env job current nbatches photos st)) = totalPhotos (fst st)
   \<and> uploadedPhotos (fst (scan_downloaded env job current nbatches photos st))
       = uploadedPhotos (fst st)"
proof (induction photos arbitrary: st)
  case Nil
  show ?case by simp
next
  case (Cons photo photos)
  obtain r where r: "evaluate env job photo = Inr r"
    using evaluate_returns by blast
  show ?case
    unfolding scan_downloaded_step [OF r] by (simp add: Cons.IH Let_def)
qed

lemma length_download_all: "length (download_all d photos) \<le> length photos"
  by (simp add: download_all_def List.map_filter_def) 

declare process_batches.simps [simp del]

lemma process_batches_step:
  assumes "i < length allPhotos" and "0 < bsize"
  shows "process_batches env job allPhotos bsize nbatches i st =
     process_batches env job allPhotos bsize nbatches (i + bsize)
       (scan_downloaded env job (i div bsize + 1) nbatches
          (download_all (env_downloadPhoto env) (take bsize (drop i allPhotos)))
          (fst st, record_call (DownloadPhotosInBatches
              (map item_id (take bsize (drop i allPhotos)))) (snd st)))"
  using assms by (subst process_batches.simps) (simp add: Let_def)

lemma process_batches_stop:
  assumes "\<not> (i < length allPhotos \<and> 0 < bsize)"
  shows "process_batches env job allPhotos bsize nbatches i st = st"
  using assms by (subst process_batches.simps) auto

lemma length_batch_download:
  "length (download_all d (take bsize (drop i allPhotos))) \<le> bsize"
  "length (download_all d (take bsize (drop i allPhotos))) \<le> length allPhotos - i"
  using length_download_all [of d "take bsize (drop i allPhotos)"] by simp_all

lemma process_batches_advances:
  assumes "scannedPhotos (fst st) \<le> i" and "scannedPhotos (fst st) \<le> length allPhotos"
    and "totalPhotos (fst st) = length allPhotos"
  shows "advances st (process_batches env job allPhotos bsize nbatches i st)
       \<and> scannedPhotos (fst (process_batches env job allPhotos bsize nbatches i st))
            \<le> length allPhotos
       \<and> totalPhotos (fst (process_batches env job allPhotos bsize nbatches i st))
            = length allPhotos
       \<and> uploadedPhotos (fst (process_batches env job allPhotos bsize nbatches i st))
            = uploadedPhotos (fst st)"
  using assms
proof (induction env job allPhotos bsize nbatches i st rule: process_batches.induct)
  case (1 env job allPhotos bsize nbatches i st)
  show ?case
  proof (cases "i < length allPhotos \<and> 0 < bsize")
    case False
    then show ?thesis
      using "1.prems" by (simp add: process_batches_stop)
  next
    case True
    define batch where "batch = take bsize (drop i allPhotos)"
    define downloaded where "downloaded = download_all (env_downloadPhoto env) batch"
    define st0 where "st0 = (fst st, record_call (DownloadPhotosInBatches (map item_id batch)) (snd st))"
    define st1 where "st1 = scan_downloaded env job (i div bsize + 1) nbatches downloaded st0"
    have step: "process_batches env job allPhotos bsize nbatches i st =
        process_batches env job allPhotos bsize nbatches (i + bsize) st1"
      using True by (simp add: process_batches_step st1_def st0_def downloaded_def batch_def)
    have len: "length downloaded \<le> bsize" "length downloaded \<le> length allPhotos - i"
      unfolding downloaded_def batch_def by (rule length_batch_download)+
    have a0: "advances (fst st, snd st) st0"
      unfolding st0_def by (rule advances_quiet [where evs = "[DownloadPhotosInBatches (map item_id batch)]"]) simp_all
    have room: "scannedPhotos (fst st) + length downloaded \<le> totalPhotos (fst st)"
      using "1.prems" True len by linarith
    have a1: "advances st0 st1"
      unfolding st1_def
      using room by (intro scan_downloaded_advances) (simp add: st0_def)
    have c1: "scannedPhotos (fst st1) = scannedPhotos (fst st) + length downloaded"
      "totalPhotos (fst st1) = totalPhotos (fst st)"
      "uploadedPhotos (fst st1) = uploadedPhotos (fst st)"
      unfolding st1_def using scan_downloaded_counters [of env job "i div bsize + 1" nbatches downloaded st0]
      by (simp_all add: st0_def)
    have ih: "advances st1 (process_batches env job allPhotos bsize nbatches (i + bsize) st1)
       \<and> scannedPhotos (fst (process_batches env job allPhotos bsize nbatches (i + bsize) st1))
            \<le> length allPhotos
       \<and> totalPhotos (fst (process_batches env job allPhotos bsize nbatches (i + bsize) st1))
            = length allPhotos
       \<and> uploadedPhotos (fst (process_batches env job allPhotos bsize nbatches (i + bsize) st1))
            = uploadedPhotos (fst st1)"
      unfolding st1_def st0_def downloaded_def batch_def
    proof (rule "1.IH" [OF True refl refl refl refl])
      show "scannedPhotos (fst (scan_downloaded env job (i div bsize + 1) nbatches
              (download_all (env_downloadPhoto env) (take bsize (drop i allPhotos)))
              (fst st, record_call (DownloadPhotosInBatches
                 (map item_id (take bsize (drop i allPhotos)))) (snd st)))) \<le> i + bsize"
        using c1(1) len(1) "1.prems"(1)
        by (simp add: st1_def st0_def downloaded_def batch_def)
      show "scannedPhotos (fst (scan_downloaded env job (i div bsize + 1) nbatches
              (download_all (env_downloadPhoto env) (take bsize (drop i allPhotos)))
              (fst st, record_call (DownloadPhotosInBatches
                 (map item_id (take bsize (drop i allPhotos)))) (snd st)))) \<le> length allPhotos"
        using c1(1) room "1.prems"(3)
        by (simp add: st1_def st0_def downloaded_def batch_def)
      show "totalPhotos (fst (scan_downloaded env job (i div bsize + 1) nbatches
              (download_all (env_downloadPhoto env) (take bsize (drop i allPhotos)))
              (fst st, record_call (DownloadPhotosInBatches
                 (map item_id (take bsize (drop i allPhotos)))) (snd st)))) = length allPhotos"
        using c1(2) "1.prems"(3)
        by (simp add: st1_def st0_def downloaded_def batch_def)
    qed
    have "advances st st1"
      using a0 a1 advances_trans by fastforce
    with ih have "advances st (process_batches env job allPhotos bsize nbatches (i + bsize) st1)"
      using advances_trans by blast
    with ih c1 show ?thesis
      unfolding step by simp
  qed
qed

lemma on_upload_progress_locals [simp]:
  "fst (on_upload_progress scanId nbatches completed n st) = (fst st)\<lparr>uploadedPhotos := completed\<rparr>"
  by (simp add: on_upload_progress_def Let_def)

lemma on_upload_progress_advances:
  assumes "uploadedPhotos (fst st) \<le> completed"
    and "scannedPhotos (fst st) \<le> totalPhotos (fst st)"
  shows "advances st (on_upload_progress scanId nbatches completed n st)"
proof -
  let ?l = "(fst st)\<lparr>uploadedPhotos := completed\<rparr>"
  have "advances (fst st, snd st)
          (?l, updateProgress scanId (snapshot ?l nbatches nbatches) (snd st))"
  proof (rule advances_push)
    show "counters_le (fst st) ?l"
      using assms(1) by (simp add: counters_le_def)
    show "calls (updateProgress scanId (snapshot ?l nbatches nbatches) (snd st))
            = calls (snd st) @ [UpdateProgress (snapshot ?l nbatches nbatches)]"
      by simp
    show "progress_updates [UpdateProgress (snapshot ?l nbatches nbatches)]
            = [snapshot ?l nbatches nbatches]"
      by simp
    show "scannedPhotos ?l \<le> totalPhotos ?l"
      using assms(2) by simp
  qed
  then show ?thesis
    by (simp add: on_upload_progress_def Let_def)
qed

lemma upload_each_Cons:
  "upload_each store n cb (photo # photos) completed st =
     (case fst (uploadPhotoWithRetry (store (up_filename photo)) default_maxRetries) of
        Inr obj \<Rightarrow>
          (\<lparr>originalId = up_id photo, success = True, stored = obj, upload_error = None\<rparr>
             # fst (upload_each store n cb photos (completed + 1) (cb (completed + 1) n st)),
           snd (upload_each store n cb photos (completed + 1) (cb (completed + 1) n st)))
      | Inl err \<Rightarrow>
          (\<lparr>originalId = up_id photo, success = False, stored = None, upload_error = Some err\<rparr>
             # fst (upload_each store n cb photos completed st),
           snd (upload_each store n cb photos completed st)))"
  by (simp add: Let_def case_prod_beta split: sum.splits)

declare upload_each.simps(2) [simp del]

lemma upload_each_advances:
  assumes "uploadedPhotos (fst st) \<le> completed"
    and "scannedPhotos (fst st) \<le> totalPhotos (fst st)"
  shows "advances st
           (snd (upload_each store n (on_upload_progress scanId nbatches) photos completed st))"
  using assms
proof (induction photos arbitrary: completed st)
  case Nil
  show ?case by simp
next
  case (Cons photo photos)
  show ?case
  proof (cases "fst (uploadPhotoWithRetry (store (up_filename photo)) default_maxRetries)")
    case (Inl err)
    then show ?thesis
      using Cons.IH [OF Cons.prems] by (simp add: upload_each_Cons)
  next
    case (Inr obj)
    let ?st1 = "on_upload_progress scanId nbatches (completed + 1) n st"
    have a1: "advances st ?st1"
      using Cons.prems by (intro on_upload_progress_advances) simp_all
    have a2: "advances ?st1
        (snd (upload_each store n (on_upload_progress scanId nbatches) photos (completed + 1) ?st1))"
      using Cons.prems by (intro Cons.IH) simp_all
    from a1 a2 Inr show ?thesis
      by (simp add: upload_each_Cons advances_trans)
  qed
qed

lemma upload_each_locals:
  "totalPhotos (fst (snd (upload_each store n (on_upload_progress scanId nbatches) photos completed st)))
     = totalPhotos (fst st)
   \<and> scannedPhotos (fst (snd (upload_each store n (on_upload_progress scanId nbatches) photos completed st)))
     = scannedPhotos (fst st)
   \<and> matchedPhotos (fst (snd (upload_each store n (on_upload_progress scanId nbatches) photos completed st)))
     = matchedPhotos (fst st)"
proof (induction photos arbitrary: completed st)
  case Nil
  show ?case by simp
next
  case (Cons photo photos)
  show ?case
    by (cases "fst (uploadPhotoWithRetry (store (up_filename photo)) default_maxRetries)")
       (simp_all add: upload_each_Cons Cons.IH)
qed

lemma upload_each_uploaded:
  assumes "uploadedPhotos (fst st) \<le> completed"
  shows "uploadedPhotos (fst (snd (upload_each store n (on_upload_progress scanId nbatches) photos completed st)))
     \<le> completed + length (filter success
           (fst (upload_each store n (on_upload_progress scanId nbatches) photos completed st)))"
  using assms
proof (induction photos arbitrary: completed st)
  case Nil
  then show ?case by simp
next
  case (Cons photo photos)
  show ?case
  proof (cases "fst (uploadPhotoWithRetry (store (up_filename photo)) default_maxRetries)")
    case (Inl err)
    then show ?thesis
      using Cons.IH [OF Cons.prems] by (simp add: upload_each_Cons)
  next
    case (Inr obj)
    have "uploadedPhotos (fst (on_upload_progress scanId nbatches (completed + 1) n st))
            \<le> completed + 1"
      by simp
    from Cons.IH [OF this] Inr show ?thesis
      by (simp add: upload_each_Cons)
  qed
qed

lemma map_throwing_length: "map_throwing f xs = Inr ys \<Longrightarrow> length ys = length xs"
  by (induction xs arbitrary: ys) (auto split: sum.splits)

lemma createMatchedPhotos_Inr:
  assumes "createMatchedPhotos rows w = Inr w'"
  shows "matched_photos_table w' = matched_photos_table w @ rows"
    and "scans_table w' = scans_table w"
    and "\<exists>evs. calls w' = calls w @ evs \<and> progress_updates evs = []"
  using assms by (auto simp: createMatchedPhotos_def split: if_splits)

lemma advances_world:
  assumes "advances st (l, w)" and "calls w' = calls w @ evs" and "progress_updates evs = []"
    and "counters_le l l'"
  shows "advances st (l', w')"
proof -
  have "advances (l, w) (l', w')"
    using assms(4,2,3) by (rule advances_quiet)
  with assms(1) show ?thesis by (rule advances_trans)
qed

lemma upload_matched_advances:
  assumes "uploadedPhotos (fst st) = 0" and "scannedPhotos (fst st) \<le> totalPhotos (fst st)"
  shows "advances st (snd (upload_matched env job allPhotos nbatches st))"
    and "totalPhotos (fst (snd (upload_matched env job allPhotos nbatches st))) = totalPhotos (fst st)"
    and "scannedPhotos (fst (snd (upload_matched env job allPhotos nbatches st))) = scannedPhotos (fst st)"
    and "matchedPhotos (fst (snd (upload_matched env job allPhotos nbatches st))) = matchedPhotos (fst st)"
    and "uploadedPhotos (fst (snd (upload_matched env job allPhotos nbatches st)))
           \<le> length (filter success (fst (upload_matched env job allPhotos nbatches st)))"
proof -
  define matched where "matched = matchedPhotosData (fst st)"
  define wanted where "wanted =
    filter (\<lambda>photo. list_ex (\<lambda>m. googlePhotoId m = item_id photo) matched) allPhotos"
  define items where "items =
    map (to_upload job matched) (download_all (env_downloadOriginalPhoto env) wanted)"
  define w1 where "w1 = record_call (UploadPhotosInBatch (map up_id items))
     (record_call (DownloadOriginalPhotos (map item_id wanted)) (snd st))"
  have unfold: "upload_matched env job allPhotos nbatches st =
      upload_each (env_uploadPhoto env) (length items)
        (on_upload_progress (job_scanId job) nbatches) items 0 (fst st, w1)"
    unfolding upload_matched_def uploadPhotosInBatch_def Let_def w1_def items_def wanted_def
      matched_def ..
  have a1: "advances st (fst st, w1)"
    by (rule advances_world [where l = "fst st" and w = "snd st"
          and evs = "[DownloadOriginalPhotos (map item_id wanted),
                      UploadPhotosInBatch (map up_id items)]"])
       (simp_all add: w1_def)
  have a2: "advances (fst st, w1) (snd (upload_matched env job allPhotos nbatches st))"
    unfolding unfold using assms by (intro upload_each_advances) simp_all
  from a1 a2 show "advances st (snd (upload_matched env job allPhotos nbatches st))"
    by (rule advances_trans)
  show "totalPhotos (fst (snd (upload_matched env job allPhotos nbatches st))) = totalPhotos (fst st)"
    "scannedPhotos (fst (snd (upload_matched env job allPhotos nbatches st))) = scannedPhotos (fst st)"
    "matchedPhotos (fst (snd (upload_matched env job allPhotos nbatches st))) = matchedPhotos (fst st)"
    unfolding unfold
    using upload_each_locals [of "env_uploadPhoto env" "length items" "job_scanId job" nbatches
        items 0 "(fst st, w1)"]
    by simp_all
  show "uploadedPhotos (fst (snd (upload_matched env job allPhotos nbatches st)))
           \<le> length (filter success (fst (upload_matched env job allPhotos nbatches st)))"
    unfolding unfold
    using upload_each_uploaded [of "(fst st, w1)" 0 "env_uploadPhoto env" "length items"
        "job_scanId job" nbatches items] assms(1)
    by simp
qed

lemma save_matched_advances:
  assumes "advances st0 st"
    and "uploadedPhotos (fst st) \<le> length (filter success uploadResults)"
    and "scannedPhotos (fst st) \<le> totalPhotos (fst st)"
  shows "\<exists>l'. advances st0 (l', snd (save_matched job matched uploadResults st))
           \<and> scannedPhotos l' \<le> totalPhotos l'
           \<and> (\<forall>l2. fst (save_matched job matched uploadResults st) = Inr l2 \<longrightarrow> l2 = l')"
proof (cases "map_throwing (photo_record (job_scanId job) matched) (filter success uploadResults)")
  case (Inl err)
  then have "save_matched job matched uploadResults st = (Inl err, snd st)"
    by (simp add: save_matched_def)
  then show ?thesis
    using assms(1,3) by (intro exI [of _ "fst st"]) simp
next
  case (Inr photoRecords)
  have len: "length photoRecords = length (filter success uploadResults)"
    using Inr by (rule map_throwing_length)
  let ?l2 = "(fst st)\<lparr>uploadedPhotos := length photoRecords\<rparr>"
  have le: "counters_le (fst st) ?l2"
    using assms(2) len by (simp add: counters_le_def)
  show ?thesis
  proof (cases "if length photoRecords > 0
                then createMatchedPhotos photoRecords (snd st) else Inr (snd st)")
    case (Inl err)
    then have "save_matched job matched uploadResults st = (Inl err, snd st)"
      using Inr by (simp add: save_matched_def)
    then show ?thesis
      using assms(1,3) by (intro exI [of _ "fst st"]) simp
  next
    case w3: (Inr w3)
    then have res: "save_matched job matched uploadResults st = (Inr ?l2, w3)"
      using Inr by (simp add: save_matched_def)
    have "\<exists>evs. calls w3 = calls (snd st) @ evs \<and> progress_updates evs = []"
    proof (cases "length photoRecords > 0")
      case True
      with w3 have "createMatchedPhotos photoRecords (snd st) = Inr w3" by simp
      then show ?thesis by (rule createMatchedPhotos_Inr(3))
    next
      case False
      with w3 show ?thesis by simp
    qed
    then obtain evs where "calls w3 = calls (snd st) @ evs" "progress_updates evs = []"
      by blast
    with assms(1) le have "advances st0 (?l2, w3)"
      by (auto intro: advances_world [where l = "fst st" and w = "snd st" and evs = evs])
    then show ?thesis
      using res assms(3) by (intro exI [of _ ?l2]) simp
  qed
qed

lemma upload_stage_nonempty:
  assumes "length (matchedPhotosData (fst st)) > 0"
  shows "upload_stage env job allPhotos nbatches st =
      save_matched job (matchedPhotosData (fst st)) (fst (upload_matched env job allPhotos nbatches st))
       (fst (snd (upload_matched env job allPhotos nbatches st)),
         record_call (UploadResults (fst (upload_matched env job allPhotos nbatches st)))
           (snd (snd (upload_matched env job allPhotos nbatches st))))"
  unfolding upload_stage_def Let_def
  apply (subst if_P)
   apply (rule assms)
  apply (rule refl)
  done

lemma upload_stage_empty:
  assumes "\<not> length (matchedPhotosData (fst st)) > 0"
  shows "upload_stage env job allPhotos nbatches st = (Inr (fst st), snd st)"
  unfolding upload_stage_def
  apply (subst if_not_P)
   apply (rule assms)
  apply (rule refl)
  done

lemma upload_stage_advances:
  assumes "uploadedPhotos (fst st) = 0" and "scannedPhotos (fst st) \<le> totalPhotos (fst st)"
  shows "\<exists>l'. advances st (l', snd (upload_stage env job allPhotos nbatches st))
           \<and> scannedPhotos l' \<le> totalPhotos l'
           \<and> (\<forall>l2. fst (upload_stage env job allPhotos nbatches st) = Inr l2 \<longrightarrow> l2 = l')"
proof (cases "length (matchedPhotosData (fst st)) > 0")
  case False
  show ?thesis
    unfolding upload_stage_empty [OF False]
    using assms(2) by (intro exI [of _ "fst st"]) simp
next
  case True
  let ?up = "upload_matched env job allPhotos nbatches st"
  let ?st1 = "(fst (snd ?up), record_call (UploadResults (fst ?up)) (snd (snd ?up)))"
  note um = upload_matched_advances [OF assms, of env job allPhotos nbatches]
  have "advances (fst (snd ?up), snd (snd ?up)) ?st1"
    by (rule advances_quiet [where evs = "[UploadResults (fst ?up)]"]) simp_all
  with um(1) have a: "advances st ?st1"
    using advances_trans by fastforce
  have b: "uploadedPhotos (fst ?st1) \<le> length (filter success (fst ?up))"
    using um(5) by simp
  have c: "scannedPhotos (fst ?st1) \<le> totalPhotos (fst ?st1)"
    using um(2,3) assms(2) by simp
  from save_matched_advances [OF a b c] show ?thesis
    unfolding upload_stage_nonempty [OF True] .
qed

lemma scan_stage_advances:
  assumes "fst st = initial_locals\<lparr>totalPhotos := length allPhotos\<rparr>"
  shows "advances st (scan_stage env job allPhotos st)"
    and "uploadedPhotos (fst (scan_stage env job allPhotos st)) = 0"
    and "scannedPhotos (fst (scan_stage env job allPhotos st))
           \<le> totalPhotos (fst (scan_stage env job allPhotos st))"
proof -
  define l1 where "l1 = (fst st)\<lparr>totalPhotos := length allPhotos\<rparr>"
  define bsize where "bsize = batchSize (env_BATCH_SIZE env)"
  define nbatches where "nbatches = ceil_div (totalPhotos l1) bsize"
  define w1 where "w1 = updateProgress (job_scanId job) (snapshot l1 0 nbatches) (snd st)"
  define st2 where "st2 = process_batches env job allPhotos bsize nbatches 0 (l1, w1)"
  have unfold: "scan_stage env job allPhotos st =
      (fst st2, record_call (ScanningComplete (matchedPhotosData (fst st2))) (snd st2))"
    unfolding scan_stage_def Let_def st2_def w1_def nbatches_def bsize_def l1_def ..
  have l1: "l1 = fst st" "scannedPhotos l1 = 0" "uploadedPhotos l1 = 0"
    "totalPhotos l1 = length allPhotos"
    unfolding l1_def using assms by (simp_all add: initial_locals_def)
  have a1: "advances (fst st, snd st) (l1, w1)"
  proof (rule advances_push [where evs = "[UpdateProgress (snapshot l1 0 nbatches)]"
          and c = 0 and n = nbatches])
    show "counters_le (fst st) l1" by (simp add: l1(1))
    show "calls w1 = calls (snd st) @ [UpdateProgress (snapshot l1 0 nbatches)]"
      by (simp add: w1_def)
    show "progress_updates [UpdateProgress (snapshot l1 0 nbatches)] = [snapshot l1 0 nbatches]"
      by simp
    show "scannedPhotos l1 \<le> totalPhotos l1" by (simp add: l1(2))
  qed
  have pb: "advances (l1, w1) st2 \<and> scannedPhotos (fst st2) \<le> length allPhotos
      \<and> totalPhotos (fst st2) = length allPhotos
      \<and> uploadedPhotos (fst st2) = uploadedPhotos (fst (l1, w1))"
    unfolding st2_def by (rule process_batches_advances) (simp_all add: l1(2,4))
  have "advances st st2"
    using a1 pb advances_trans by fastforce
  moreover have "advances (fst st2, snd st2)
      (fst st2, record_call (ScanningComplete (matchedPhotosData (fst st2))) (snd st2))"
    by (rule advances_quiet [where evs = "[ScanningComplete (matchedPhotosData (fst st2))]"])
       simp_all
  ultimately show "advances st (scan_stage env job allPhotos st)"
    unfolding unfold using advances_trans by fastforce
  show "uploadedPhotos (fst (scan_stage env job allPhotos st)) = 0"
    unfolding unfold using pb l1(3) by simp
  show "scannedPhotos (fst (scan_stage env job allPhotos st))
           \<le> totalPhotos (fst (scan_stage env job allPhotos st))"
    unfolding unfold using pb by simp
qed

lemma scan_and_upload_cases:
  "scan_and_upload env job allPhotos st =
     (case upload_stage env job allPhotos
             (ceil_div (length allPhotos) (batchSize (env_BATCH_SIZE env)))
             (scan_stage env job allPhotos st) of
        (Inl err, w2) \<Rightarrow> (Inl err, w2)
      | (Inr l2, w2) \<Rightarrow>
          (Inr \<lparr>res_success = True, res_message = None,
                res_totalPhotos = totalPhotos l2,
                res_scannedPhotos = Some (scannedPhotos l2),
                res_matchedPhotos = matchedPhotos l2,
                res_uploadedPhotos = Some (uploadedPhotos l2)\<rparr>,
           markScanCompleted (job_scanId job) (env_NOW_finished env)
             (updateProgress (job_scanId job)
                (snapshot l2 (ceil_div (length allPhotos) (batchSize (env_BATCH_SIZE env)))
                   (ceil_div (length allPhotos) (batchSize (env_BATCH_SIZE env)))) w2)))"
  unfolding scan_and_upload_def Let_def ..

lemma scan_and_upload_advances:
  assumes "fst st = initial_locals\<lparr>totalPhotos := length allPhotos\<rparr>"
  shows "\<exists>l'. advances st (l', snd (scan_and_upload env job allPhotos st))"
proof -
  define nbatches where "nbatches = ceil_div (length allPhotos) (batchSize (env_BATCH_SIZE env))"
  define st3 where "st3 = scan_stage env job allPhotos st"
  define us where "us = upload_stage env job allPhotos nbatches st3"
  have unfold: "scan_and_upload env job allPhotos st =
      (case us of
         (Inl err, w2) \<Rightarrow> (Inl err, w2)
       | (Inr l2, w2) \<Rightarrow>
           (Inr \<lparr>res_success = True, res_message = None,
                 res_totalPhotos = totalPhotos l2,
                 res_scannedPhotos = Some (scannedPhotos l2),
                 res_matchedPhotos = matchedPhotos l2,
                 res_uploadedPhotos = Some (uploadedPhotos l2)\<rparr>,
            markScanCompleted (job_scanId job) (env_NOW_finished env)
              (updateProgress (job_scanId job) (snapshot l2 nbatches nbatches) w2)))"
    unfolding scan_and_upload_cases us_def st3_def nbatches_def ..
  note ss = scan_stage_advances [OF assms, of env job]
  have a2: "advances st st3"
    unfolding st3_def by (rule ss(1))
  from ss(2,3) have "uploadedPhotos (fst st3) = 0" "scannedPhotos (fst st3) \<le> totalPhotos (fst st3)"
    by (simp_all add: st3_def)
  from upload_stage_advances [OF this, of env job allPhotos nbatches]
  obtain l' where l': "advances st3 (l', snd us)" "scannedPhotos l' \<le> totalPhotos l'"
    "\<forall>l2. fst us = Inr l2 \<longrightarrow> l2 = l'"
    unfolding us_def by blast
  from a2 l'(1) have a3: "advances st (l', snd us)"
    by (rule advances_trans)
  show ?thesis
  proof (cases "fst us")
    case (Inl err)
    then have "scan_and_upload env job allPhotos st = (Inl err, snd us)"
      unfolding unfold by (cases us) simp
    with a3 show ?thesis by auto
  next
    case (Inr l2)
    with l'(3) have "l2 = l'" by simp
    with Inr have res: "snd (scan_and_upload env job allPhotos st) =
        markScanCompleted (job_scanId job) (env_NOW_finished env)
              (updateProgress (job_scanId job) (snapshot l' nbatches nbatches) (snd us))"
      unfolding unfold by (cases us) simp
    have "advances (l', snd us) (l', snd (scan_and_upload env job allPhotos st))"
      by (rule advances_push [where evs = "[UpdateProgress (snapshot l' nbatches nbatches)]"
          and c = nbatches and n = nbatches])
         (simp_all add: res l'(2))
    with a3 have "advances st (l', snd (scan_and_upload env job allPhotos st))"
      by (rule advances_trans)
    then show ?thesis ..
  qed
qed

lemma resolve_and_scan_advances:
  "\<exists>l'. advances (initial_locals, w0) (l', snd (resolve_and_scan env job w0))"
proof -
  have a0: "\<exists>l'. advances (initial_locals, w0) (l', w0)"
    using advances_refl by blast
  show ?thesis
  proof (cases "resolveAccessToken env (job_oauthToken job)")
    case (Inl err)
    then have "resolve_and_scan env job w0 = (Inl err, w0)"
      by (simp add: resolve_and_scan_def)
    with a0 show ?thesis by simp
  next
    case (Inr accessToken)
    define fetched where "fetched =
      fetchAllPhotos (env_mediaItems_search env accessToken)
        (on_fetch_progress (job_scanId job)) [] 0 (initial_locals, record_call FetchAllPhotos w0)"
    have unfold: "resolve_and_scan env job w0 =
        (case fst fetched of
           Inl err \<Rightarrow> (Inl err, snd (snd fetched))
         | Inr allPhotos \<Rightarrow>
             if length allPhotos = 0 then
               (Inr \<lparr>res_success = True,
                     res_message = Some ''No photos found in Google Photos'',
                     res_totalPhotos = 0, res_scannedPhotos = None,
                     res_matchedPhotos = 0, res_uploadedPhotos = None\<rparr>,
                markScanCompleted (job_scanId job) (env_NOW_finished env) (snd (snd fetched)))
             else scan_and_upload env job allPhotos (snd fetched))"
      unfolding resolve_and_scan_def Let_def fetched_def
      by (simp only: Inr sum.case)
    have a1: "advances (initial_locals, w0) (initial_locals, record_call FetchAllPhotos w0)"
      by (rule advances_quiet [where evs = "[FetchAllPhotos]"]) simp_all
    have "advances (initial_locals, record_call FetchAllPhotos w0) (snd fetched)"
      unfolding fetched_def
      by (rule fetchAllPhotos_advances) (simp_all add: initial_locals_def)
    with a1 have a2: "advances (initial_locals, w0) (snd fetched)"
      by (rule advances_trans)
    show ?thesis
    proof (cases "fst fetched")
      case (Inl err)
      then have "snd (resolve_and_scan env job w0) = snd (snd fetched)"
        by (simp add: unfold)
      with a2 show ?thesis
        by (intro exI [of _ "fst (snd fetched)"]) simp
    next
      case allPhotos: (Inr allPhotos)
      show ?thesis
      proof (cases "length allPhotos = 0")
        case True
        with allPhotos have res: "snd (resolve_and_scan env job w0) =
            markScanCompleted (job_scanId job) (env_NOW_finished env) (snd (snd fetched))"
          by (simp add: unfold)
        have "advances (initial_locals, w0) (fst (snd fetched), snd (resolve_and_scan env job w0))"
          by (rule advances_world [where l = "fst (snd fetched)" and w = "snd (snd fetched)"
                and evs = "[]"])
             (simp_all add: a2 res)
        then show ?thesis ..
      next
        case False
        with allPhotos have res: "resolve_and_scan env job w0 =
            scan_and_upload env job allPhotos (snd fetched)"
          by (simp add: unfold)
        from fetchAllPhotos_locals [of "env_mediaItems_search env accessToken" "job_scanId job"
            "[]" 0 "(initial_locals, record_call FetchAllPhotos w0)"] allPhotos
        have "fst (snd fetched) = initial_locals\<lparr>totalPhotos := length allPhotos\<rparr>"
          unfolding fetched_def by auto
        from scan_and_upload_advances [OF this, of env job]
        obtain l' where "advances (snd fetched) (l', snd (resolve_and_scan env job w0))"
          unfolding res by blast
        with a2 have "advances (initial_locals, w0) (l', snd (resolve_and_scan env job w0))"
          by (rule advances_trans)
        then show ?thesis ..
      qed
    qed
  qed
qed

lemma processScan_try_advances:
  "\<exists>l'. advances (initial_locals, w) (l', snd (processScan_try env job w))"
proof (cases "markScanStarted (job_scanId job) (env_NOW_started env) w")
  case (Inl err)
  then have "snd (processScan_try env job w) = w"
    by (simp add: processScan_try_def)
  then have "advances (initial_locals, w) (initial_locals, snd (processScan_try env job w))"
    by simp
  then show ?thesis ..
next
  case (Inr w0)
  have "advances (initial_locals, w) (initial_locals, w0)"
    by (rule advances_quiet [where evs = "[]"]) (simp_all add: markScanStarted_Inr(3) [OF Inr])
  moreover from resolve_and_scan_advances [of w0 env job]
  obtain l' where "advances (initial_locals, w0) (l', snd (resolve_and_scan env job w0))"
    by blast
  ultimately have "advances (initial_locals, w) (l', snd (resolve_and_scan env job w0))"
    by (rule advances_trans)
  then show ?thesis
    using Inr by (auto simp: processScan_try_def)
qed

lemma processScan_calls:
  "calls (snd (processScan env job w)) = calls (snd (processScan_try env job w))"
  by (cases "processScan_try env job w") (simp add: processScan_def split: sum.splits)


text \<open>
  C7: in every run, each progress update has a scanned count of at most its total, and
  the four counters (total, scanned, matched, uploaded) never decrease from one
  progress update to the next.
\<close>

theorem progress_updates_monotone:
  "sorted_wrt counters_le (progress_updates (new_calls w (snd (processScan env job w))))
   \<and> (\<forall>p\<in>set (progress_updates (new_calls w (snd (processScan env job w)))).
         scannedPhotos p \<le> totalPhotos p)"
proof -
  from processScan_try_advances [of w env job]
  obtain l' evs where evs: "calls (snd (processScan_try env job w)) = calls w @ evs"
    "sorted_wrt counters_le (progress_updates evs)"
    "\<forall>p\<in>set (progress_updates evs). scannedPhotos p \<le> totalPhotos p"
    unfolding advances_def by auto
  from evs(1) have "new_calls w (snd (processScan env job w)) = evs"
    by (simp add: new_calls_def processScan_calls)
  with evs(2,3) show ?thesis by simp
qed


section \<open>Progress updates while the batches are processed\<close>

lemma upt_one_append:
  "[1..<Suc (a + b)] = [1..<Suc a] @ map (\<lambda>k. a + k) [1..<Suc b]"
proof -
  have "[1..<Suc (a + b)] = [1..<Suc a] @ [Suc a..<Suc a + b]"
    using upt_add_eq_append [of 1 "Suc a" b] by simp
  moreover have "[Suc a..<Suc a + b] = map (\<lambda>k. a + k) [1..<Suc b]"
    by (induction b) (simp_all del: upt_Suc add: upt_Suc_append)
  ultimately show ?thesis by simp
qed

lemma updates_at_tens_append:
  "updates_at_tens env job t s m u nb (A @ B) =
     updates_at_tens env job t s m u nb A
       @ updates_at_tens env job t (s + length A)
           (m + length (filter (\<lambda>x. reported env job (snd x)) A)) u nb B"
proof -
  let ?f = "\<lambda>seq s m k. \<lparr>totalPhotos = t, scannedPhotos = s + k,
                matchedPhotos = m + length (filter (\<lambda>x. reported env job (snd x)) (take k seq)),
                uploadedPhotos = u, currentBatch = fst (seq ! (k - 1)),
                totalBatches = nb\<rparr>"
  have first: "map (?f (A @ B) s m) (filter (\<lambda>k. (s + k) mod 10 = 0) [1..<Suc (length A)])
      = map (?f A s m) (filter (\<lambda>k. (s + k) mod 10 = 0) [1..<Suc (length A)])"
    by (rule map_cong) (auto simp: nth_append)
  have second: "map (?f (A @ B) s m)
        (filter (\<lambda>k. (s + k) mod 10 = 0) (map (\<lambda>k. length A + k) [1..<Suc (length B)]))
      = map (?f B (s + length A) (m + length (filter (\<lambda>x. reported env job (snd x)) A)))
          (filter (\<lambda>k. (s + length A + k) mod 10 = 0) [1..<Suc (length B)])"
    unfolding filter_map map_map comp_def
    by (rule map_cong) (auto simp: nth_append add.assoc)
  show ?thesis
    unfolding updates_at_tens_def length_append upt_one_append [of "length A" "length B"]
      filter_append map_append first second ..
qed

lemma updates_at_tens_Nil [simp]: "updates_at_tens env job t s m u nb [] = []"
  by (simp add: updates_at_tens_def)

lemma updates_at_tens_single:
  "updates_at_tens env job t s m u nb [(c, photo)] =
     (if Suc s mod 10 = 0
      then [\<lparr>totalPhotos = t, scannedPhotos = Suc s,
             matchedPhotos = m + (if reported env job photo then 1 else 0),
             uploadedPhotos = u, currentBatch = c, totalBatches = nb\<rparr>]
      else [])"
  by (simp add: updates_at_tens_def)

lemma scan_downloaded_updates:
  "\<exists>evs. calls (snd (scan_downloaded env job current nb photos st)) = calls (snd st) @ evs
     \<and> progress_updates evs =
         updates_at_tens env job (totalPhotos (fst st)) (scannedPhotos (fst st))
           (matchedPhotos (fst st)) (uploadedPhotos (fst st)) nb (map (Pair current) photos)
     \<and> matchedPhotos (fst (scan_downloaded env job current nb photos st)) =
         matchedPhotos (fst st) + length (filter (reported env job) photos)
     \<and> (\<forall>ms. ScanningComplete ms \<notin> set evs)"
proof (induction photos arbitrary: st)
  case Nil
  show ?case by simp
next
  case (Cons photo photos)
  obtain r where r: "evaluate env job photo = Inr r"
    using evaluate_returns by blast
  then have rep: "reported env job photo = isMatch r"
    by (simp add: reported_def)
  define l2 where "l2 = (let l1 = (fst st)\<lparr>scannedPhotos := scannedPhotos (fst st) + 1\<rparr>
     in if isMatch r
        then l1\<lparr>matchedPhotos := matchedPhotos l1 + 1,
                matchedPhotosData := matchedPhotosData l1 @ [match_entry photo r]\<rparr>
        else l1)"
  define e1 where "e1 = MatchFace (dl_id photo) #
     (if scannedPhotos l2 mod 10 = 0
      then [UpdateProgress (snapshot l2 current nb), JobProgress] else [])"
  define w1 where "w1 = (if scannedPhotos l2 mod 10 = 0
                  then record_call JobProgress
                         (updateProgress (job_scanId job) (snapshot l2 current nb)
                            (record_call (MatchFace (dl_id photo)) (snd st)))
                  else record_call (MatchFace (dl_id photo)) (snd st))"
  have step: "scan_downloaded env job current nb (photo # photos) st =
                scan_downloaded env job current nb photos (l2, w1)"
    unfolding scan_downloaded_step [OF r] by (simp add: l2_def w1_def Let_def)
  have l2: "scannedPhotos l2 = Suc (scannedPhotos (fst st))"
    "totalPhotos l2 = totalPhotos (fst st)" "uploadedPhotos l2 = uploadedPhotos (fst st)"
    "matchedPhotos l2 = matchedPhotos (fst st) + (if reported env job photo then 1 else 0)"
    by (simp_all add: l2_def Let_def rep)
  have c1: "calls w1 = calls (snd st) @ e1"
    by (simp add: w1_def e1_def)
  have p1: "progress_updates e1 =
      updates_at_tens env job (totalPhotos (fst st)) (scannedPhotos (fst st))
           (matchedPhotos (fst st)) (uploadedPhotos (fst st)) nb [(current, photo)]"
    unfolding updates_at_tens_single
    by (simp add: e1_def l2 snapshot_def)
  from Cons.IH [of "(l2, w1)"] obtain evs where evs:
    "calls (snd (scan_downloaded env job current nb photos (l2, w1))) = calls w1 @ evs"
    "progress_updates evs =
         updates_at_tens env job (totalPhotos l2) (scannedPhotos l2)
           (matchedPhotos l2) (uploadedPhotos l2) nb (map (Pair current) photos)"
    "matchedPhotos (fst (scan_downloaded env job current nb photos (l2, w1))) =
         matchedPhotos l2 + length (filter (reported env job) photos)"
    "\<forall>ms. ScanningComplete ms \<notin> set evs"
    by auto
  have "calls (snd (scan_downloaded env job current nb (photo # photos) st))
          = calls (snd st) @ (e1 @ evs)"
    unfolding step using evs(1) c1 by simp
  moreover have "progress_updates (e1 @ evs) =
         updates_at_tens env job (totalPhotos (fst st)) (scannedPhotos (fst st))
           (matchedPhotos (fst st)) (uploadedPhotos (fst st)) nb
           (map (Pair current) (photo # photos))"
    using updates_at_tens_append [of env job "totalPhotos (fst st)" "scannedPhotos (fst st)"
        "matchedPhotos (fst st)" "uploadedPhotos (fst st)" nb "[(current, photo)]"
        "map (Pair current) photos"]
    by (simp add: p1 evs(2) l2)
  moreover have "matchedPhotos (fst (scan_downloaded env job current nb (photo # photos) st)) =
         matchedPhotos (fst st) + length (filter (reported env job) (photo # photos))"
    unfolding step using evs(3) l2(4) by simp
  moreover have "\<forall>ms. ScanningComplete ms \<notin> set (e1 @ evs)"
    using evs(4) by (simp add: e1_def)
  ultimately show ?case by blast
qed

lemma less_ceil_div:
  assumes "0 < b"
  shows "j < ceil_div n b \<longleftrightarrow> j * b < n"
proof -
  have "j < (n + b - 1) div b \<longleftrightarrow> Suc j * b \<le> n + b - 1"
    using less_eq_div_iff_mult_less_eq [OF assms, of "Suc j" "n + b - 1"] by (simp add: Suc_le_eq)
  also have "\<dots> \<longleftrightarrow> j * b < n"
    using assms by (cases b) auto
  finally show ?thesis by (simp add: ceil_div_def)
qed

lemma tagged_downloads_step:
  assumes "0 < bsize" and "j * bsize < length allPhotos"
  shows "tagged_downloads env allPhotos bsize j =
           map (Pair (j + 1))
             (download_all (env_downloadPhoto env) (take bsize (drop (j * bsize) allPhotos)))
           @ tagged_downloads env allPhotos bsize (Suc j)"
proof -
  have "j < ceil_div (length allPhotos) bsize"
    using assms by (simp add: less_ceil_div)
  then have "[j..<ceil_div (length allPhotos) bsize] = j # [Suc j..<ceil_div (length allPhotos) bsize]"
    by (rule upt_conv_Cons)
  then show ?thesis
    by (simp add: tagged_downloads_def)
qed

lemma tagged_downloads_stop:
  assumes "0 < bsize" and "\<not> j * bsize < length allPhotos"
  shows "tagged_downloads env allPhotos bsize j = []"
proof -
  have "\<not> j < ceil_div (length allPhotos) bsize"
    using assms by (simp add: less_ceil_div)
  then have e: "[j..<ceil_div (length allPhotos) bsize] = []"
    by simp
  show ?thesis
    unfolding tagged_downloads_def e by simp
qed

lemma process_batches_updates:
  assumes "0 < bsize" and "i = j * bsize"
  shows "\<exists>evs. calls (snd (process_batches env job allPhotos bsize nb i st)) = calls (snd st) @ evs
     \<and> progress_updates evs =
         updates_at_tens env job (totalPhotos (fst st)) (scannedPhotos (fst st))
           (matchedPhotos (fst st)) (uploadedPhotos (fst st)) nb
           (tagged_downloads env allPhotos bsize j)
     \<and> (\<forall>ms. ScanningComplete ms \<notin> set evs)"
  using assms
proof (induction env job allPhotos bsize nb i st arbitrary: j rule: process_batches.induct)
  case (1 env job allPhotos bsize nb i st)
  show ?case
  proof (cases "i < length allPhotos")
    case False
    then have "process_batches env job allPhotos bsize nb i st = st"
      by (simp add: process_batches_stop)
    moreover have "tagged_downloads env allPhotos bsize j = []"
      using False "1.prems" by (simp add: tagged_downloads_stop)
    ultimately show ?thesis by simp
  next
    case True
    define batch where "batch = take bsize (drop i allPhotos)"
    define downloaded where "downloaded = download_all (env_downloadPhoto env) batch"
    define st0 where "st0 = (fst st, record_call (DownloadPhotosInBatches (map item_id batch)) (snd st))"
    define st1 where "st1 = scan_downloaded env job (i div bsize + 1) nb downloaded st0"
    define st2 where "st2 = process_batches env job allPhotos bsize nb (i + bsize) st1"
    have cur: "i div bsize + 1 = j + 1"
      using "1.prems" by simp
    have step: "process_batches env job allPhotos bsize nb i st = st2"
      using True "1.prems"(1)
      by (simp add: process_batches_step st2_def st1_def st0_def downloaded_def batch_def)
    from scan_downloaded_updates [of env job "i div bsize + 1" nb downloaded st0]
    obtain e1 where e1: "calls (snd st1) = calls (snd st0) @ e1"
      "progress_updates e1 =
         updates_at_tens env job (totalPhotos (fst st)) (scannedPhotos (fst st))
           (matchedPhotos (fst st)) (uploadedPhotos (fst st)) nb (map (Pair (j + 1)) downloaded)"
      "matchedPhotos (fst st1) = matchedPhotos (fst st) + length (filter (reported env job) downloaded)"
      "\<forall>ms. ScanningComplete ms \<notin> set e1"
      unfolding st1_def cur by (auto simp: st0_def)
    have c1: "scannedPhotos (fst st1) = scannedPhotos (fst st) + length downloaded"
      "totalPhotos (fst st1) = totalPhotos (fst st)"
      "uploadedPhotos (fst st1) = uploadedPhotos (fst st)"
      unfolding st1_def
      using scan_downloaded_counters [of env job "i div bsize + 1" nb downloaded st0]
      by (simp_all add: st0_def)
    have next_i: "i + bsize = Suc j * bsize"
      using "1.prems"(2) by simp
    from "1.IH" [OF _ refl refl refl refl "1.prems"(1) next_i] True "1.prems"(1)
    obtain e2 where e2: "calls (snd st2) = calls (snd st1) @ e2"
      "progress_updates e2 =
         updates_at_tens env job (totalPhotos (fst st1)) (scannedPhotos (fst st1))
           (matchedPhotos (fst st1)) (uploadedPhotos (fst st1)) nb
           (tagged_downloads env allPhotos bsize (Suc j))"
      "\<forall>ms. ScanningComplete ms \<notin> set e2"
      unfolding st2_def st1_def st0_def downloaded_def batch_def by blast
    have seq: "tagged_downloads env allPhotos bsize j =
        map (Pair (j + 1)) downloaded @ tagged_downloads env allPhotos bsize (Suc j)"
      using tagged_downloads_step [of bsize j allPhotos env] True "1.prems"
      by (simp add: downloaded_def batch_def)
    have len: "length (filter (\<lambda>x. reported env job (snd x)) (map (Pair (j + 1)) downloaded))
        = length (filter (reported env job) downloaded)"
      by (simp add: filter_map comp_def)
    let ?evs = "DownloadPhotosInBatches (map item_id batch) # e1 @ e2"
    have "calls (snd st2) = calls (snd st) @ ?evs"
      using e1(1) e2(1) by (simp add: st0_def)
    moreover have "progress_updates ?evs =
         updates_at_tens env job (totalPhotos (fst st)) (scannedPhotos (fst st))
           (matchedPhotos (fst st)) (uploadedPhotos (fst st)) nb
           (tagged_downloads env allPhotos bsize j)"
      unfolding seq updates_at_tens_append len
      by (simp add: e1(2) e2(2) c1 e1(3))
    moreover have "\<forall>ms. ScanningComplete ms \<notin> set ?evs"
      using e1(4) e2(3) by simp
    ultimately show ?thesis
      unfolding step by blast
  qed
qed

section \<open>What a run leaves in the stores\<close>

lemma stores_kept_refl [simp]: "stores_kept w w"
  by (simp add: stores_kept_def)

lemma stores_kept_trans: "stores_kept a b \<Longrightarrow> stores_kept b c \<Longrightarrow> stores_kept a c"
  by (auto simp: stores_kept_def)

lemma dom_update_row [simp]: "dom (scans_table (update_row scanId f w)) = dom (scans_table w)"
  by (auto simp: update_row_def split: option.splits)

lemma stores_kept_update_row [simp]: "stores_kept w (update_row scanId f w)"
  by (simp add: stores_kept_def)

lemma stores_kept_record_call [simp]: "stores_kept w (record_call e w)"
  by (simp add: stores_kept_def)

lemma stores_kept_updateProgress [simp]: "stores_kept w (updateProgress scanId p w)"
  by (simp add: stores_kept_def updateProgress_def updateScanProgress_def)

lemma stores_kept_step:
  "stores_kept w w1 \<Longrightarrow> stores_kept w (updateProgress scanId p w1)"
  "stores_kept w w1 \<Longrightarrow> stores_kept w (record_call e w1)"
  "stores_kept w w1 \<Longrightarrow> stores_kept w (update_row scanId f w1)"
  by (erule stores_kept_trans, simp)+

lemma on_fetch_progress_kept [simp]:
  "stores_kept (snd st) (snd (on_fetch_progress scanId n pageCount st))"
  by (simp add: on_fetch_progress_def Let_def)

lemma fetchAllPhotos_kept:
  "stores_kept (snd st)
     (snd (snd (fetchAllPhotos script (on_fetch_progress scanId) photos pageCount st)))"
proof (induction script arbitrary: photos pageCount st)
  case (NextPage items rest)
  let ?st1 = "on_fetch_progress scanId (length (photos @ items)) (pageCount + 1) st"
  have "stores_kept (snd st) (snd ?st1)"
    by (rule on_fetch_progress_kept)
  moreover have "stores_kept (snd ?st1)
      (snd (snd (fetchAllPhotos rest (on_fetch_progress scanId) (photos @ items) (pageCount + 1) ?st1)))"
    by (rule NextPage.IH)
  ultimately have "stores_kept (snd st)
      (snd (snd (fetchAllPhotos rest (on_fetch_progress scanId) (photos @ items) (pageCount + 1) ?st1)))"
    by (rule stores_kept_trans)
  then show ?case by simp
qed simp_all

lemma scan_downloaded_kept:
  "stores_kept (snd st) (snd (scan_downloaded env job current nbatches photos st))"
proof (induction photos arbitrary: st)
  case Nil
  show ?case by simp
next
  case (Cons photo photos)
  obtain r where r: "evaluate env job photo = Inr r"
    using evaluate_returns by blast
  show ?case
    unfolding scan_downloaded_step [OF r] Let_def
    by (rule stores_kept_trans [OF _ Cons.IH]) (simp add: stores_kept_step)
qed

lemma process_batches_kept:
  "stores_kept (snd st) (snd (process_batches env job allPhotos bsize nbatches i st))"
proof (induction env job allPhotos bsize nbatches i st rule: process_batches.induct)
  case (1 env job allPhotos bsize nbatches i st)
  show ?case
  proof (cases "i < length allPhotos \<and> 0 < bsize")
    case False
    then show ?thesis by (simp add: process_batches_stop)
  next
    case True
    let ?st0 = "(fst st, record_call (DownloadPhotosInBatches
              (map item_id (take bsize (drop i allPhotos)))) (snd st))"
    let ?st1 = "scan_downloaded env job (i div bsize + 1) nbatches
          (download_all (env_downloadPhoto env) (take bsize (drop i allPhotos))) ?st0"
    have step: "process_batches env job allPhotos bsize nbatches i st =
        process_batches env job allPhotos bsize nbatches (i + bsize) ?st1"
      using True by (simp add: process_batches_step)
    have "stores_kept (snd st) (snd ?st0)" by simp
    moreover have "stores_kept (snd ?st0) (snd ?st1)" by (rule scan_downloaded_kept)
    ultimately have "stores_kept (snd st) (snd ?st1)" by (rule stores_kept_trans)
    moreover have "stores_kept (snd ?st1)
        (snd (process_batches env job allPhotos bsize nbatches (i + bsize) ?st1))"
      by (rule "1.IH" [OF True refl refl refl refl])
    ultimately show ?thesis
      unfolding step by (rule stores_kept_trans)
  qed
qed

lemma on_upload_progress_kept [simp]:
  "stores_kept (snd st) (snd (on_upload_progress scanId nbatches completed n st))"
  by (simp add: on_upload_progress_def Let_def)

lemma upload_each_kept:
  "stores_kept (snd st)
     (snd (snd (upload_each store n (on_upload_progress scanId nbatches) photos completed st)))"
proof (induction photos arbitrary: completed st)
  case Nil
  show ?case by simp
next
  case (Cons photo photos)
  show ?case
  proof (cases "fst (uploadPhotoWithRetry (store (up_filename photo)) default_maxRetries)")
    case (Inl err)
    then show ?thesis by (simp add: upload_each_Cons Cons.IH)
  next
    case (Inr obj)
    let ?st1 = "on_upload_progress scanId nbatches (completed + 1) n st"
    have "stores_kept (snd st) (snd ?st1)"
      by (rule on_upload_progress_kept)
    moreover have "stores_kept (snd ?st1)
        (snd (snd (upload_each store n (on_upload_progress scanId nbatches) photos (completed + 1) ?st1)))"
      by (rule Cons.IH)
    ultimately have "stores_kept (snd st)
        (snd (snd (upload_each store n (on_upload_progress scanId nbatches) photos (completed + 1) ?st1)))"
      by (rule stores_kept_trans)
    with Inr show ?thesis
      by (simp add: upload_each_Cons)
  qed
qed

lemma upload_matched_kept:
  "stores_kept (snd st) (snd (snd (upload_matched env job allPhotos nbatches st)))"
  unfolding upload_matched_def uploadPhotosInBatch_def Let_def
  by (rule stores_kept_trans [OF _ upload_each_kept]) (simp add: stores_kept_step)

lemma scan_stage_kept:
  "stores_kept (snd st) (snd (scan_stage env job allPhotos st))"
proof -
  let ?l1 = "(fst st)\<lparr>totalPhotos := length allPhotos\<rparr>"
  let ?nb = "ceil_div (totalPhotos ?l1) (batchSize (env_BATCH_SIZE env))"
  let ?w1 = "updateProgress (job_scanId job) (snapshot ?l1 0 ?nb) (snd st)"
  let ?st2 = "process_batches env job allPhotos (batchSize (env_BATCH_SIZE env)) ?nb 0 (?l1, ?w1)"
  have "stores_kept (snd st) ?w1"
    by simp
  moreover have "stores_kept ?w1 (snd ?st2)"
    using process_batches_kept [of "(?l1, ?w1)"] by simp
  ultimately have "stores_kept (snd st) (snd ?st2)"
    by (rule stores_kept_trans)
  then have "stores_kept (snd st)
      (record_call (ScanningComplete (matchedPhotosData (fst ?st2))) (snd ?st2))"
    by (rule stores_kept_step)
  then show ?thesis
    unfolding scan_stage_def Let_def by simp
qed

lemma grows_refl [simp]: "grows w w"
  by (simp add: grows_def)

lemma grows_trans: "grows a b \<Longrightarrow> grows b c \<Longrightarrow> grows a c"
  by (auto simp: grows_def)

lemma stores_kept_grows: "stores_kept w w' \<Longrightarrow> grows w w'"
  by (simp add: stores_kept_def grows_def)

lemma fetchAllPhotos_result:
  "fst (fetchAllPhotos script cb photos pageCount st) =
     (case script_items script of Inl err \<Rightarrow> Inl err | Inr later \<Rightarrow> Inr (photos @ later))"
  by (induction script arbitrary: photos pageCount st) (simp_all split: sum.splits)

lemma updateProgress_row:
  "scans_table (updateProgress scanId p w) k =
     (if k = scanId
      then map_option (\<lambda>s. s\<lparr>total_photos := totalPhotos p, scanned_photos := scannedPhotos p,
                              matched_photos := matchedPhotos p,
                              uploaded_photos := uploadedPhotos p\<rparr>) (scans_table w k)
      else scans_table w k)"
  by (simp add: updateProgress_def updateScanProgress_def update_row_lookup COALESCE_def)

lemma repeated_update_calls:
  "calls ((updateProgress scanId p ^^ k) w) = calls w @ replicate k (UpdateProgress p)"
proof (induction k)
  case 0
  show ?case by simp
next
  case (Suc k)
  have "replicate k (UpdateProgress p) @ [UpdateProgress p] = replicate (Suc k) (UpdateProgress p)"
    by (simp add: replicate_append_same)
  with Suc show ?case by simp
qed

lemma repeated_update_table:
  "matched_photos_table ((updateProgress scanId p ^^ k) w) = matched_photos_table w"
  by (induction k) simp_all

lemma repeated_update_row:
  "scans_table ((updateProgress scanId p ^^ Suc k) w) scanId =
     map_option (\<lambda>s. s\<lparr>total_photos := totalPhotos p, scanned_photos := scannedPhotos p,
                        matched_photos := matchedPhotos p,
                        uploaded_photos := uploadedPhotos p\<rparr>) (scans_table w scanId)"
proof (induction k)
  case 0
  show ?case by (simp add: updateProgress_row)
next
  case (Suc k)
  have "scans_table ((updateProgress scanId p ^^ Suc (Suc k)) w) scanId =
      map_option (\<lambda>s. s\<lparr>total_photos := totalPhotos p, scanned_photos := scannedPhotos p,
                      matched_photos := matchedPhotos p,
                      uploaded_photos := uploadedPhotos p\<rparr>)
        (scans_table ((updateProgress scanId p ^^ Suc k) w) scanId)"
    by (simp add: updateProgress_row)
  then show ?case
    unfolding Suc.IH by (simp add: option.map_comp comp_def)
qed

lemma fetchAllPhotos_empty:
  assumes "script_items script = Inr []"
  shows "\<exists>k. snd (fetchAllPhotos script (on_fetch_progress scanId) [] pageCount (l, w)) =
           (l\<lparr>totalPhotos := 0\<rparr>,
            (updateProgress scanId (snapshot (l\<lparr>totalPhotos := 0\<rparr>) 0 0) ^^ Suc k) w)"
  using assms
proof (induction script arbitrary: pageCount l w)
  case (LastPage items)
  then have "snd (fetchAllPhotos (LastPage items) (on_fetch_progress scanId) [] pageCount (l, w)) =
           (l\<lparr>totalPhotos := 0\<rparr>,
            (updateProgress scanId (snapshot (l\<lparr>totalPhotos := 0\<rparr>) 0 0) ^^ Suc 0) w)"
    by (simp add: on_fetch_progress_def Let_def)
  then show ?case by (rule exI)
next
  case (NextPage items rest)
  from NextPage.prems have items: "items = []" and rest: "script_items rest = Inr []"
    by (auto split: sum.splits)
  let ?l = "l\<lparr>totalPhotos := 0\<rparr>"
  let ?up = "updateProgress scanId (snapshot ?l 0 0)"
  from NextPage.IH [OF rest, of "pageCount + 1" ?l "?up w"]
  obtain k where k: "snd (fetchAllPhotos rest (on_fetch_progress scanId) [] (pageCount + 1)
       (?l, ?up w)) = (?l, (?up ^^ Suc k) (?up w))"
    by auto
  have "snd (fetchAllPhotos (NextPage items rest) (on_fetch_progress scanId) [] pageCount (l, w))
      = (?l, (?up ^^ Suc (Suc k)) w)"
    using k items by (simp add: on_fetch_progress_def Let_def funpow_swap1)
  then show ?case by (rule exI)
next
  case (RequestFails err)
  then show ?case by simp
qed

lemma resolve_and_scan_resolved:
  assumes "resolveAccessToken env (job_oauthToken job) = Inr accessToken"
  shows "resolve_and_scan env job w0 =
     (case fst (fetchAllPhotos (env_mediaItems_search env accessToken)
                  (on_fetch_progress (job_scanId job)) [] 0
                  (initial_locals, record_call FetchAllPhotos w0)) of
        Inl err \<Rightarrow>
          (Inl err,
           snd (snd (fetchAllPhotos (env_mediaItems_search env accessToken)
                  (on_fetch_progress (job_scanId job)) [] 0
                  (initial_locals, record_call FetchAllPhotos w0))))
      | Inr allPhotos \<Rightarrow>
          if length allPhotos = 0 then
            (Inr \<lparr>res_success = True,
                  res_message = Some ''No photos found in Google Photos'',
                  res_totalPhotos = 0, res_scannedPhotos = None,
                  res_matchedPhotos = 0, res_uploadedPhotos = None\<rparr>,
             markScanCompleted (job_scanId job) (env_NOW_finished env)
               (snd (snd (fetchAllPhotos (env_mediaItems_search env accessToken)
                  (on_fetch_progress (job_scanId job)) [] 0
                  (initial_locals, record_call FetchAllPhotos w0)))))
          else scan_and_upload env job allPhotos
                 (snd (fetchAllPhotos (env_mediaItems_search env accessToken)
                  (on_fetch_progress (job_scanId job)) [] 0
                  (initial_locals, record_call FetchAllPhotos w0))))"
  unfolding resolve_and_scan_def Let_def by (simp only: assms sum.case)

lemma resolve_and_scan_refused:
  assumes "resolveAccessToken env (job_oauthToken job) = Inl err"
  shows "resolve_and_scan env job w0 =
           (Inl err, w0)"
  unfolding resolve_and_scan_def Let_def by (simp only: assms sum.case)

lemma processScan_try_uuid:
  assumes "is_uuid (job_scanId job)"
  shows "processScan_try env job w =
           resolve_and_scan env job
             (update_row (job_scanId job)
                (\<lambda>s. s\<lparr>status := Processing, started_at := Some (env_NOW_started env)\<rparr>) w)"
  by (simp add: processScan_try_def markScanStarted_uuid [OF assms])

lemma processScan_not_uuid:
  assumes "\<not> is_uuid (job_scanId job)"
  shows "processScan env job w = (Inl (invalid_uuid (job_scanId job)), w)"
  using assms by (simp add: processScan_def processScan_try_def markScanStarted_def)


lemma markScanCompleted_row:
  "scans_table (markScanCompleted scanId now w) k =
     (if k = scanId
      then map_option (\<lambda>s. s\<lparr>status := Completed, completed_at := Some now\<rparr>) (scans_table w k)
      else scans_table w k)"
  by (simp add: markScanCompleted_def update_row_lookup)

lemma empty_library_run:
  assumes "is_uuid (job_scanId job)"
    and "resolveAccessToken env (job_oauthToken job) = Inr accessToken"
    and "script_items (env_mediaItems_search env accessToken) = Inr []"
  shows "fst (processScan env job w) =
           Inr \<lparr>res_success = True, res_message = Some ''No photos found in Google Photos'',
                res_totalPhotos = 0, res_scannedPhotos = None,
                res_matchedPhotos = 0, res_uploadedPhotos = None\<rparr>
       \<and> (\<exists>k. new_calls w (snd (processScan env job w)) =
                 FetchAllPhotos # replicate (Suc k) (UpdateProgress zero_progress))
       \<and> matched_photos_table (snd (processScan env job w)) = matched_photos_table w
       \<and> (\<forall>s. scans_table w (job_scanId job) = Some s \<longrightarrow>
             (\<exists>s'. scans_table (snd (processScan env job w)) (job_scanId job) = Some s'
                  \<and> status s' = Completed \<and> total_photos s' = 0 \<and> matched_photos s' = 0
                  \<and> uploaded_photos s' = 0))"
proof -
  define ws where "ws = update_row (job_scanId job)
     (\<lambda>s. s\<lparr>status := Processing, started_at := Some (env_NOW_started env)\<rparr>) w"
  define w0 where "w0 = record_call FetchAllPhotos ws"
  define fetched where "fetched = fetchAllPhotos (env_mediaItems_search env accessToken)
                  (on_fetch_progress (job_scanId job)) [] 0 (initial_locals, w0)"
  have none: "fst fetched = Inr []"
    unfolding fetched_def by (simp add: fetchAllPhotos_result assms(3))
  have tried: "processScan_try env job w =
      (Inr \<lparr>res_success = True, res_message = Some ''No photos found in Google Photos'',
            res_totalPhotos = 0, res_scannedPhotos = None,
            res_matchedPhotos = 0, res_uploadedPhotos = None\<rparr>,
       markScanCompleted (job_scanId job) (env_NOW_finished env) (snd (snd fetched)))"
    unfolding processScan_try_uuid [OF assms(1)] resolve_and_scan_resolved [OF assms(2)]
    using none by (simp add: fetched_def w0_def ws_def)
  then have run: "processScan env job w =
      (Inr \<lparr>res_success = True, res_message = Some ''No photos found in Google Photos'',
            res_totalPhotos = 0, res_scannedPhotos = None,
            res_matchedPhotos = 0, res_uploadedPhotos = None\<rparr>,
       markScanCompleted (job_scanId job) (env_NOW_finished env) (snd (snd fetched)))"
    by (simp add: processScan_def)
  have zero: "snapshot (initial_locals\<lparr>totalPhotos := 0\<rparr>) 0 0 = zero_progress"
    by (simp add: snapshot_def initial_locals_def zero_progress_def)
  from fetchAllPhotos_empty [OF assms(3), of "job_scanId job" 0 initial_locals w0]
  obtain k where k: "snd (snd fetched) = (updateProgress (job_scanId job) zero_progress ^^ Suc k) w0"
    unfolding fetched_def zero by auto
  have calls: "calls (snd (processScan env job w)) =
      calls w @ FetchAllPhotos # replicate (Suc k) (UpdateProgress zero_progress)"
    unfolding run
    by (simp add: k repeated_update_calls w0_def ws_def del: funpow.simps replicate.simps)
  have table: "matched_photos_table (snd (processScan env job w)) = matched_photos_table w"
    unfolding run by (simp add: k repeated_update_table w0_def ws_def del: funpow.simps)
  have row: "\<exists>s'. scans_table (snd (processScan env job w)) (job_scanId job) = Some s'
                  \<and> status s' = Completed \<and> total_photos s' = 0 \<and> matched_photos s' = 0
                  \<and> uploaded_photos s' = 0"
    if "scans_table w (job_scanId job) = Some s" for s
    unfolding run using that
    by (simp add: markScanCompleted_row k repeated_update_row w0_def ws_def
        update_row_lookup zero_progress_def del: funpow.simps)
  from calls have "new_calls w (snd (processScan env job w)) =
      FetchAllPhotos # replicate (Suc k) (UpdateProgress zero_progress)"
    by (rule new_calls_append)
  then have "\<exists>k. new_calls w (snd (processScan env job w)) =
      FetchAllPhotos # replicate (Suc k) (UpdateProgress zero_progress)"
    by (rule exI)
  with run table row show ?thesis
    by simp
qed

text \<open>
  C8: when the run has passed its first statement (the scan id is one the database
  reads), the credential resolves and the enumeration returns no item, the run
  returns the result for an empty library, the scan is marked completed with
  total, matched and uploaded counts of 0, no matched photo is saved, and the only calls
  made are the enumeration and its progress updates with all counters 0: no thumbnail
  download, no match, no download of originals and no upload.
\<close>

theorem empty_library_completes:
  assumes "is_uuid (job_scanId job)"
    and "resolveAccessToken env (job_oauthToken job) = Inr accessToken"
    and "script_items (env_mediaItems_search env accessToken) = Inr []"
  shows "fst (processScan env job w) =
           Inr \<lparr>res_success = True, res_message = Some ''No photos found in Google Photos'',
                res_totalPhotos = 0, res_scannedPhotos = None,
                res_matchedPhotos = 0, res_uploadedPhotos = None\<rparr>
       \<and> (\<exists>k. new_calls w (snd (processScan env job w)) =
                 FetchAllPhotos # replicate (Suc k) (UpdateProgress zero_progress))
       \<and> matched_photos_table (snd (processScan env job w)) = matched_photos_table w
       \<and> (\<forall>s. scans_table w (job_scanId job) = Some s \<longrightarrow>
             (\<exists>s'. scans_table (snd (processScan env job w)) (job_scanId job) = Some s'
                  \<and> status s' = Completed \<and> total_photos s' = 0 \<and> matched_photos s' = 0
                  \<and> uploaded_photos s' = 0))"
  using assms by (rule empty_library_run)



section \<open>The rows a run saves\<close>

lemma grows_step:
  "grows w w1 \<Longrightarrow> grows w (updateProgress scanId p w1)"
  "grows w w1 \<Longrightarrow> grows w (record_call e w1)"
  "grows w w1 \<Longrightarrow> grows w (update_row scanId f w1)"
  by (auto simp: grows_def updateProgress_def updateScanProgress_def record_call_def)

lemma grows_mark:
  "grows w w1 \<Longrightarrow> grows w (markScanCompleted scanId now w1)"
  "grows w w1 \<Longrightarrow> grows w (markScanFailed scanId msg now w1)"
  by (simp_all add: markScanCompleted_def markScanFailed_def grows_step)

lemma createMatchedPhotos_grows:
  assumes "createMatchedPhotos rows w = Inr w'"
  shows "grows w w'"
  using assms by (auto simp: createMatchedPhotos_def grows_def split: if_splits)


lemma save_matched_grows: "grows (snd st) (snd (save_matched job matched rs st))"
proof (cases "map_throwing (photo_record (job_scanId job) matched) (filter success rs)")
  case (Inl err)
  then show ?thesis by (simp add: save_matched_def)
next
  case (Inr photoRecords)
  show ?thesis
  proof (cases "if length photoRecords > 0
                then createMatchedPhotos photoRecords (snd st) else Inr (snd st)")
    case (Inl err)
    with Inr show ?thesis by (simp add: save_matched_def)
  next
    case w: (Inr w')
    then have "grows (snd st) w'"
      by (cases "length photoRecords > 0") (simp_all add: createMatchedPhotos_grows)
    with Inr w show ?thesis by (simp add: save_matched_def)
  qed
qed


lemma upload_stage_grows:
  "grows (snd st) (snd (upload_stage env job allPhotos nbatches st))"
proof (cases "length (matchedPhotosData (fst st)) > 0")
  case False
  show ?thesis
    unfolding upload_stage_empty [OF False] by simp
next
  case True
  let ?up = "upload_matched env job allPhotos nbatches st"
  let ?st1 = "(fst (snd ?up), record_call (UploadResults (fst ?up)) (snd (snd ?up)))"
  have "grows (snd st) (snd (snd ?up))"
    by (rule stores_kept_grows [OF upload_matched_kept])
  then have "grows (snd st) (snd ?st1)"
    by (simp add: grows_step)
  moreover have "grows (snd ?st1)
      (snd (save_matched job (matchedPhotosData (fst st)) (fst ?up) ?st1))"
    by (rule save_matched_grows)
  ultimately show ?thesis
    unfolding upload_stage_nonempty [OF True] by (rule grows_trans)
qed



lemma grows_no_row:
  assumes "grows w w'" and "scans_table w k = None"
  shows "scans_table w' k = None"
  using assms unfolding grows_def by (metis domIff)

lemma scan_and_upload_grows:
  "grows (snd st) (snd (scan_and_upload env job allPhotos st))"
proof -
  define nbatches where "nbatches = ceil_div (length allPhotos) (batchSize (env_BATCH_SIZE env))"
  define st3 where "st3 = scan_stage env job allPhotos st"
  define us where "us = upload_stage env job allPhotos nbatches st3"
  have unfold: "scan_and_upload env job allPhotos st =
      (case us of
         (Inl err, w2) \<Rightarrow> (Inl err, w2)
       | (Inr l2, w2) \<Rightarrow>
          (Inr \<lparr>res_success = True, res_message = None,
                res_totalPhotos = totalPhotos l2,
                res_scannedPhotos = Some (scannedPhotos l2),
                res_matchedPhotos = matchedPhotos l2,
                res_uploadedPhotos = Some (uploadedPhotos l2)\<rparr>,
           markScanCompleted (job_scanId job) (env_NOW_finished env)
             (updateProgress (job_scanId job) (snapshot l2 nbatches nbatches) w2)))"
    unfolding scan_and_upload_cases us_def st3_def nbatches_def ..
  have "grows (snd st) (snd st3)"
    unfolding st3_def by (rule stores_kept_grows [OF scan_stage_kept])
  moreover have "grows (snd st3) (snd us)"
    unfolding us_def by (rule upload_stage_grows)
  ultimately have g: "grows (snd st) (snd us)" by (rule grows_trans)
  show ?thesis
  proof (cases "fst us")
    case (Inl err)
    then have "snd (scan_and_upload env job allPhotos st) = snd us"
      unfolding unfold by (cases us) simp
    with g show ?thesis by simp
  next
    case (Inr l2)
    then have "snd (scan_and_upload env job allPhotos st) =
        markScanCompleted (job_scanId job) (env_NOW_finished env)
             (updateProgress (job_scanId job) (snapshot l2 nbatches nbatches) (snd us))"
      unfolding unfold by (cases us) simp
    with g show ?thesis by (simp add: grows_step grows_mark)
  qed
qed



lemma processScan_grows_try:
  "grows (snd (processScan_try env job w)) (snd (processScan env job w))"
  by (cases "processScan_try env job w") (simp add: processScan_def grows_mark split: sum.splits)

lemma resolve_and_scan_from_fetch:
  assumes "resolveAccessToken env (job_oauthToken job) = Inr accessToken"
  shows "grows (record_call FetchAllPhotos w0) (snd (resolve_and_scan env job w0))"
proof -
  define w1 where "w1 = record_call FetchAllPhotos w0"
  define fetched where "fetched = fetchAllPhotos (env_mediaItems_search env accessToken)
                  (on_fetch_progress (job_scanId job)) [] 0 (initial_locals, w1)"
  have f: "grows w1 (snd (snd fetched))"
    unfolding fetched_def
    using fetchAllPhotos_kept [of "(initial_locals, w1)"] by (simp add: stores_kept_grows)
  have "grows w1 (snd (resolve_and_scan env job w0))"
  proof (cases "fst fetched")
    case (Inl err)
    then have "snd (resolve_and_scan env job w0) = snd (snd fetched)"
      unfolding resolve_and_scan_resolved [OF assms] by (simp add: fetched_def w1_def)
    with f show ?thesis by simp
  next
    case (Inr allPhotos)
    show ?thesis
    proof (cases "length allPhotos = 0")
      case True
      with Inr have "snd (resolve_and_scan env job w0) =
          markScanCompleted (job_scanId job) (env_NOW_finished env) (snd (snd fetched))"
        unfolding resolve_and_scan_resolved [OF assms] by (simp add: fetched_def w1_def)
      with f show ?thesis by (simp add: grows_mark)
    next
      case False
      with Inr have "resolve_and_scan env job w0 = scan_and_upload env job allPhotos (snd fetched)"
        unfolding resolve_and_scan_resolved [OF assms] by (simp add: fetched_def w1_def)
      then have "grows (snd (snd fetched)) (snd (resolve_and_scan env job w0))"
        by (simp add: scan_and_upload_grows)
      with f show ?thesis by (rule grows_trans)
    qed
  qed
  then show ?thesis by (simp add: w1_def)
qed

lemma resolve_and_scan_grows: "grows w0 (snd (resolve_and_scan env job w0))"
proof (cases "resolveAccessToken env (job_oauthToken job)")
  case (Inl err)
  then show ?thesis by (simp add: resolve_and_scan_refused)
next
  case (Inr accessToken)
  have "grows w0 (record_call FetchAllPhotos w0)"
    by (simp add: grows_step)
  then show ?thesis
    using resolve_and_scan_from_fetch [OF Inr] by (rule grows_trans)
qed

lemma processScan_try_grows: "grows w (snd (processScan_try env job w))"
proof (cases "is_uuid (job_scanId job)")
  case True
  have "grows w (update_row (job_scanId job)
                (\<lambda>s. s\<lparr>status := Processing, started_at := Some (env_NOW_started env)\<rparr>) w)"
    by (simp add: grows_step)
  then show ?thesis
    unfolding processScan_try_uuid [OF True] using resolve_and_scan_grows by (rule grows_trans)
next
  case False
  then show ?thesis
    by (simp add: processScan_try_def markScanStarted_def)
qed

lemma processScan_grows: "grows w (snd (processScan env job w))"
  using processScan_try_grows processScan_grows_try by (rule grows_trans)

section \<open>The record of a run that reaches the batches\<close>

lemma fetchAllPhotos_calls:
  "\<exists>ps. calls (snd (snd (fetchAllPhotos script (on_fetch_progress scanId) photos pageCount st)))
           = calls (snd st) @ map UpdateProgress ps
        \<and> (\<forall>p\<in>set ps. currentBatch p = 0 \<and> totalBatches p = 0)"
proof (induction script arbitrary: photos pageCount st)
  case (LastPage items)
  let ?p = "snapshot ((fst st)\<lparr>totalPhotos := length (photos @ items)\<rparr>) 0 0"
  have "calls (snd (snd (fetchAllPhotos (LastPage items) (on_fetch_progress scanId) photos pageCount st)))
           = calls (snd st) @ map UpdateProgress [?p]"
    by (simp add: on_fetch_progress_def Let_def)
  moreover have "\<forall>p\<in>set [?p]. currentBatch p = 0 \<and> totalBatches p = 0"
    by simp
  ultimately show ?case by blast
next
  case (NextPage items rest)
  let ?p = "snapshot ((fst st)\<lparr>totalPhotos := length (photos @ items)\<rparr>) 0 0"
  let ?st1 = "on_fetch_progress scanId (length (photos @ items)) (pageCount + 1) st"
  from NextPage.IH [of "photos @ items" "pageCount + 1" ?st1]
  obtain ps where ps:
    "calls (snd (snd (fetchAllPhotos rest (on_fetch_progress scanId) (photos @ items)
        (pageCount + 1) ?st1))) = calls (snd ?st1) @ map UpdateProgress ps"
    "\<forall>p\<in>set ps. currentBatch p = 0 \<and> totalBatches p = 0"
    by blast
  have c1: "calls (snd ?st1) = calls (snd st) @ [UpdateProgress ?p]"
    by (simp add: on_fetch_progress_def Let_def)
  have "calls (snd (snd (fetchAllPhotos (NextPage items rest) (on_fetch_progress scanId) photos
          pageCount st))) = calls (snd st) @ map UpdateProgress (?p # ps)"
    using ps(1) c1 by simp
  moreover have "\<forall>p\<in>set (?p # ps). currentBatch p = 0 \<and> totalBatches p = 0"
    using ps(2) by simp
  ultimately show ?case by blast
next
  case (RequestFails err)
  have "calls (snd (snd (fetchAllPhotos (RequestFails err) (on_fetch_progress scanId) photos
          pageCount st))) = calls (snd st) @ map UpdateProgress []"
    by simp
  then show ?case by fastforce
qed

lemma scan_stage_calls:
  assumes "fst st = initial_locals\<lparr>totalPhotos := length allPhotos\<rparr>"
  shows "\<exists>batch.
           calls (snd (scan_stage env job allPhotos st)) =
             calls (snd st)
               @ UpdateProgress
                   \<lparr>totalPhotos = length allPhotos, scannedPhotos = 0, matchedPhotos = 0,
                    uploadedPhotos = 0, currentBatch = 0,
                    totalBatches = ceil_div (length allPhotos) (batchSize (env_BATCH_SIZE env))\<rparr>
               # batch
               @ [ScanningComplete
                    (reported_matches env job (download_all (env_downloadPhoto env) allPhotos))]
         \<and> progress_updates batch = batch_stage_updates env job allPhotos
         \<and> (\<forall>ms. ScanningComplete ms \<notin> set batch)"
proof -
  define l1 where "l1 = (fst st)\<lparr>totalPhotos := length allPhotos\<rparr>"
  define bsize where "bsize = batchSize (env_BATCH_SIZE env)"
  define nbatches where "nbatches = ceil_div (totalPhotos l1) bsize"
  define w1 where "w1 = updateProgress (job_scanId job) (snapshot l1 0 nbatches) (snd st)"
  define st2 where "st2 = process_batches env job allPhotos bsize nbatches 0 (l1, w1)"
  have unfold: "scan_stage env job allPhotos st =
      (fst st2, record_call (ScanningComplete (matchedPhotosData (fst st2))) (snd st2))"
    unfolding scan_stage_def Let_def st2_def w1_def nbatches_def bsize_def l1_def ..
  have l1: "scannedPhotos l1 = 0" "uploadedPhotos l1 = 0" "matchedPhotos l1 = 0"
    "totalPhotos l1 = length allPhotos" "matchedPhotosData l1 = []"
    unfolding l1_def using assms by (simp_all add: initial_locals_def)
  have nb: "nbatches = ceil_div (length allPhotos) (batchSize (env_BATCH_SIZE env))"
    by (simp add: nbatches_def l1(4) bsize_def)
  have first: "snapshot l1 0 nbatches =
      \<lparr>totalPhotos = length allPhotos, scannedPhotos = 0, matchedPhotos = 0,
       uploadedPhotos = 0, currentBatch = 0,
       totalBatches = ceil_div (length allPhotos) (batchSize (env_BATCH_SIZE env))\<rparr>"
    by (simp add: snapshot_def l1 nb)
  have pos: "0 < bsize"
    by (simp add: bsize_def batchSize_positive)
  from process_batches_updates [OF pos, of 0 0 env job allPhotos nbatches "(l1, w1)"]
  obtain batch where batch: "calls (snd st2) = calls w1 @ batch"
    "progress_updates batch = updates_at_tens env job (length allPhotos) 0 0 0 nbatches
       (tagged_downloads env allPhotos bsize 0)"
    "\<forall>ms. ScanningComplete ms \<notin> set batch"
    unfolding st2_def by (auto simp: l1)
  have data: "matchedPhotosData (fst st2) =
      reported_matches env job (download_all (env_downloadPhoto env) allPhotos)"
    unfolding st2_def using process_batches_data [OF pos, of env job allPhotos nbatches 0 "(l1, w1)"]
    by (simp add: l1(5))
  have "calls (snd (scan_stage env job allPhotos st)) =
      calls (snd st) @ UpdateProgress (snapshot l1 0 nbatches) # batch
        @ [ScanningComplete
             (reported_matches env job (download_all (env_downloadPhoto env) allPhotos))]"
    unfolding unfold by (simp add: batch(1) data w1_def)
  moreover have "progress_updates batch = batch_stage_updates env job allPhotos"
    by (simp add: batch(2) batch_stage_updates_def nb bsize_def)
  ultimately show ?thesis
    unfolding first using batch(3) by blast
qed


lemma run_reaches_scanning:
  assumes "is_uuid (job_scanId job)"
    and "resolveAccessToken env (job_oauthToken job) = Inr accessToken"
    and "script_items (env_mediaItems_search env accessToken) = Inr allPhotos"
    and "allPhotos \<noteq> []"
  shows "\<exists>fetch batch after.
           new_calls w (snd (processScan env job w)) =
             FetchAllPhotos # map UpdateProgress fetch
               @ UpdateProgress
                   \<lparr>totalPhotos = length allPhotos, scannedPhotos = 0, matchedPhotos = 0,
                    uploadedPhotos = 0, currentBatch = 0,
                    totalBatches = ceil_div (length allPhotos) (batchSize (env_BATCH_SIZE env))\<rparr>
               # batch
               @ ScanningComplete
                   (reported_matches env job (download_all (env_downloadPhoto env) allPhotos))
               # after
         \<and> (\<forall>p\<in>set fetch. currentBatch p = 0 \<and> totalBatches p = 0)
         \<and> progress_updates batch = batch_stage_updates env job allPhotos
         \<and> (\<forall>ms. ScanningComplete ms \<notin> set batch)"
proof -
  define ws where "ws = update_row (job_scanId job)
     (\<lambda>s. s\<lparr>status := Processing, started_at := Some (env_NOW_started env)\<rparr>) w"
  define w0 where "w0 = record_call FetchAllPhotos ws"
  define fetched where "fetched = fetchAllPhotos (env_mediaItems_search env accessToken)
                  (on_fetch_progress (job_scanId job)) [] 0 (initial_locals, w0)"
  define nbatches where "nbatches = ceil_div (length allPhotos) (batchSize (env_BATCH_SIZE env))"
  define st3 where "st3 = scan_stage env job allPhotos (snd fetched)"
  define us where "us = upload_stage env job allPhotos nbatches st3"
  have items: "fst fetched = Inr allPhotos"
    unfolding fetched_def by (simp add: fetchAllPhotos_result assms(3))
  have tried: "processScan_try env job w = scan_and_upload env job allPhotos (snd fetched)"
    unfolding processScan_try_uuid [OF assms(1)] resolve_and_scan_resolved [OF assms(2)]
    using items assms(4) by (simp add: fetched_def w0_def ws_def)
  from fetchAllPhotos_locals [of "env_mediaItems_search env accessToken" "job_scanId job"
            "[]" 0 "(initial_locals, w0)"] items
  have locals: "fst (snd fetched) = initial_locals\<lparr>totalPhotos := length allPhotos\<rparr>"
    unfolding fetched_def by auto
  from fetchAllPhotos_calls [of "env_mediaItems_search env accessToken" "job_scanId job"
            "[]" 0 "(initial_locals, w0)"]
  obtain fetch where fetch: "calls (snd (snd fetched)) = calls w0 @ map UpdateProgress fetch"
    "\<forall>p\<in>set fetch. currentBatch p = 0 \<and> totalBatches p = 0"
    unfolding fetched_def by auto
  from scan_stage_calls [OF locals, of env job]
  obtain batch where batch:
    "calls (snd st3) =
       calls (snd (snd fetched))
         @ UpdateProgress
             \<lparr>totalPhotos = length allPhotos, scannedPhotos = 0, matchedPhotos = 0,
              uploadedPhotos = 0, currentBatch = 0, totalBatches = nbatches\<rparr>
         # batch
         @ [ScanningComplete
              (reported_matches env job (download_all (env_downloadPhoto env) allPhotos))]"
    "progress_updates batch = batch_stage_updates env job allPhotos"
    "\<forall>ms. ScanningComplete ms \<notin> set batch"
    unfolding st3_def nbatches_def by blast
  have "grows (snd st3) (snd us)"
    unfolding us_def by (rule upload_stage_grows)
  moreover have "grows (snd us) (snd (scan_and_upload env job allPhotos (snd fetched)))"
  proof (cases "fst us")
    case (Inl err)
    then have "snd (scan_and_upload env job allPhotos (snd fetched)) = snd us"
      unfolding scan_and_upload_cases us_def st3_def nbatches_def
      by (cases "upload_stage env job allPhotos
             (ceil_div (length allPhotos) (batchSize (env_BATCH_SIZE env)))
             (scan_stage env job allPhotos (snd fetched))") simp
    then show ?thesis by simp
  next
    case (Inr l2)
    then have "snd (scan_and_upload env job allPhotos (snd fetched)) =
        markScanCompleted (job_scanId job) (env_NOW_finished env)
             (updateProgress (job_scanId job) (snapshot l2 nbatches nbatches) (snd us))"
      unfolding scan_and_upload_cases us_def st3_def nbatches_def
      by (cases "upload_stage env job allPhotos
             (ceil_div (length allPhotos) (batchSize (env_BATCH_SIZE env)))
             (scan_stage env job allPhotos (snd fetched))") simp
    then show ?thesis by (simp add: grows_step grows_mark)
  qed
  ultimately have "grows (snd st3) (snd (processScan_try env job w))"
    unfolding tried by (rule grows_trans)
  then have "grows (snd st3) (snd (processScan env job w))"
    using processScan_grows_try by (rule grows_trans)
  then obtain after where after: "calls (snd (processScan env job w)) = calls (snd st3) @ after"
    unfolding grows_def by blast
  have "calls (snd (processScan env job w)) =
      calls w @ (FetchAllPhotos # map UpdateProgress fetch
         @ UpdateProgress
             \<lparr>totalPhotos = length allPhotos, scannedPhotos = 0, matchedPhotos = 0,
              uploadedPhotos = 0, currentBatch = 0, totalBatches = nbatches\<rparr>
         # batch
         @ ScanningComplete
              (reported_matches env job (download_all (env_downloadPhoto env) allPhotos))
         # after)"
    unfolding after batch(1) fetch(1) by (simp add: w0_def ws_def)
  then have "new_calls w (snd (processScan env job w)) =
      FetchAllPhotos # map UpdateProgress fetch
         @ UpdateProgress
             \<lparr>totalPhotos = length allPhotos, scannedPhotos = 0, matchedPhotos = 0,
              uploadedPhotos = 0, currentBatch = 0, totalBatches = nbatches\<rparr>
         # batch
         @ ScanningComplete
              (reported_matches env job (download_all (env_downloadPhoto env) allPhotos))
         # after"
    by (rule new_calls_append)
  with fetch(2) batch(2,3) show ?thesis
    unfolding nbatches_def by blast
qed

lemma evaluate_threshold [simp]:
  "evaluate (env\<lparr>env_matchThreshold := t\<rparr>) job photo = evaluate env job photo"
  by (simp add: evaluate_def)

lemma scan_downloaded_threshold [simp]:
  "scan_downloaded (env\<lparr>env_matchThreshold := t\<rparr>) job current nb photos st =
     scan_downloaded env job current nb photos st"
  by (induction photos arbitrary: st) (simp_all add: Let_def split: sum.splits)

lemma process_batches_threshold [simp]:
  "process_batches (env\<lparr>env_matchThreshold := t\<rparr>) job allPhotos bsize nb i st =
     process_batches env job allPhotos bsize nb i st"
proof (induction env job allPhotos bsize nb i st rule: process_batches.induct)
  case (1 env job allPhotos bsize nb i st)
  show ?case
  proof (cases "i < length allPhotos \<and> 0 < bsize")
    case True
    then show ?thesis
      using "1.IH" [OF True refl refl refl refl] by (simp add: process_batches_step)
  next
    case False
    then show ?thesis by (simp add: process_batches_stop)
  qed
qed


section \<open>The match list and the progress updates of the batch stage\<close>


text \<open>
  C4 (amended): in a run that reaches the batches, the progress updates written while
  the batches are processed are exactly one for every multiple of 10 that the running
  count of evaluated items reaches, each with the total, that count, the matches
  reported so far, an uploaded count of 0, the number of the batch in progress and the
  number of batches. They stand in the record between the update that announces the
  total and the end of the scanning; the end of a batch writes none.
\<close>

theorem batch_progress_at_multiples_of_ten:
  assumes "is_uuid (job_scanId job)"
    and "resolveAccessToken env (job_oauthToken job) = Inr accessToken"
    and "script_items (env_mediaItems_search env accessToken) = Inr allPhotos"
    and "allPhotos \<noteq> []"
  shows "\<exists>fetch batch after.
           new_calls w (snd (processScan env job w)) =
             FetchAllPhotos # map UpdateProgress fetch
               @ UpdateProgress
                   \<lparr>totalPhotos = length allPhotos, scannedPhotos = 0, matchedPhotos = 0,
                    uploadedPhotos = 0, currentBatch = 0,
                    totalBatches = ceil_div (length allPhotos) (batchSize (env_BATCH_SIZE env))\<rparr>
               # batch
               @ ScanningComplete
                   (reported_matches env job (download_all (env_downloadPhoto env) allPhotos))
               # after
         \<and> (\<forall>p\<in>set fetch. currentBatch p = 0 \<and> totalBatches p = 0)
         \<and> progress_updates batch = batch_stage_updates env job allPhotos
         \<and> (\<forall>ms. ScanningComplete ms \<notin> set batch)"
  using assms by (rule run_reaches_scanning)


section \<open>The example runs, step by step\<close>

lemmas eval_defs =
  on_upload_progress_def on_fetch_progress_def
  updateProgress_def markScanCompleted_def markScanFailed_def update_row_def
  record_call_def snapshot_def updateScanProgress_def COALESCE_def createMatchedPhotos_def
  photo_record_def to_upload_def truthy_def truthy_number_def resolveAccessToken_def
  batchSize_def ceil_div_def download_all_def List.map_filter_def evaluate_def matchFace_def
  matchFace_with_def matchFace_try_def detectFaces_def detectFaces_try_def match_entry_def
  uploadPhotoWithRetry_def default_maxRetries_def Let_def numeral_2_eq_2 [symmetric]

lemmas ex_defs = example_env_def example_job_def example_item_def example_photos_def
  initial_locals_def pending_world_def queued_world_def run_world_def run_row_def shown_def
  example_match_def example_upload_result_def example_saved_def calls_of_fetch_def
  calls_of_scan_def calls_of_upload_def

lemma uuid_bytes_16:
  "uuid_bytes 16 h src = uuid_bytes (Suc (Suc (Suc (Suc (Suc (Suc (Suc (Suc (Suc (Suc (Suc (Suc
     (Suc (Suc (Suc (Suc 0)))))))))))))))) h src"
  by (simp add: eval_nat_numeral)

lemma ex_uuid: "is_uuid (job_scanId example_job)"
  by (simp add: example_job_def is_uuid_def uuid_bytes_16 is_hex_def)

lemma ex_not_uuid: "\<not> is_uuid (job_scanId misnamed_job)"
  by (simp add: misnamed_job_def is_uuid_def uuid_bytes_16 is_hex_def)

lemma ex_constants:
  "job_scanId example_job = ''7c9e6679-7425-40de-944b-e07fc1f90ae7''"
  "env_NOW_started example_env = 10"
  "env_NOW_finished example_env = 20"
  "length example_photos = 5"
  "batchSize (env_BATCH_SIZE example_env) = 3"
  "ceil_div 5 3 = 2"
  "totalPhotos (initial_locals\<lparr>totalPhotos := 5\<rparr>) = 5"
  "(initial_locals\<lparr>totalPhotos := 5\<rparr>)\<lparr>totalPhotos := 5\<rparr> = initial_locals\<lparr>totalPhotos := 5\<rparr>"
  "snapshot (initial_locals\<lparr>totalPhotos := 5\<rparr>) 0 2 = shown 5 0 0 0 0 2"
  by (simp_all add: eval_defs ex_defs)

lemma ex_resolved:
  "resolveAccessToken example_env (job_oauthToken example_job) = Inr ''access-token''"
  by (simp add: eval_defs ex_defs)


lemma ex_fetch:
  "fetchAllPhotos (env_mediaItems_search example_env ''access-token'')
     (on_fetch_progress (job_scanId example_job)) [] 0
     (initial_locals, record_call FetchAllPhotos
        (update_row (job_scanId example_job)
           (\<lambda>s. s\<lparr>status := Processing, started_at := Some (env_NOW_started example_env)\<rparr>)
           (queued_world (run_row st0 started0 None t0 s0 m0 u0) saved)))
   = (Inr example_photos, initial_locals\<lparr>totalPhotos := 5\<rparr>,
      run_world (run_row Processing (Some 10) None 5 0 0 0) saved (shown 5 0 0 0 0 0)
        calls_of_fetch)"
  by (simp add: eval_defs ex_defs)

lemma ex_scan:
  "scan_stage example_env example_job example_photos
     (initial_locals\<lparr>totalPhotos := 5\<rparr>,
      run_world (run_row Processing (Some 10) None 5 0 0 0) saved (shown 5 0 0 0 0 0)
        calls_of_fetch)
   = (\<lparr>totalPhotos = 5, scannedPhotos = 5, matchedPhotos = 1, uploadedPhotos = 0,
        matchedPhotosData = [example_match]\<rparr>,
      run_world (run_row Processing (Some 10) None 5 0 0 0) saved (shown 5 0 0 0 0 2)
        (calls_of_fetch @ calls_of_scan))"
  by (simp add: scan_stage_def eval_defs ex_defs process_batches.simps)

lemma ex_upload:
  "upload_stage example_env example_job example_photos 2
     (\<lparr>totalPhotos = 5, scannedPhotos = 5, matchedPhotos = 1, uploadedPhotos = 0,
        matchedPhotosData = [example_match]\<rparr>,
      run_world (run_row Processing (Some 10) None 5 0 0 0) saved (shown 5 0 0 0 0 2)
        (calls_of_fetch @ calls_of_scan))
   = (Inr \<lparr>totalPhotos = 5, scannedPhotos = 5, matchedPhotos = 1, uploadedPhotos = 1,
        matchedPhotosData = [example_match]\<rparr>,
      run_world (run_row Processing (Some 10) None 5 5 1 1) (saved @ [example_saved])
        (shown 5 5 1 1 2 2) (calls_of_fetch @ calls_of_scan @ butlast calls_of_upload))"
  by (simp add: eval_defs ex_defs upload_stage_def upload_matched_def save_matched_def
      uploadPhotosInBatch_def upload_each.simps)

lemma ex_scan_and_upload:
  "scan_and_upload example_env example_job example_photos
     (initial_locals\<lparr>totalPhotos := 5\<rparr>,
      run_world (run_row Processing (Some 10) None 5 0 0 0) saved (shown 5 0 0 0 0 0)
        calls_of_fetch)
   = (Inr \<lparr>res_success = True, res_message = None, res_totalPhotos = 5,
            res_scannedPhotos = Some 5, res_matchedPhotos = 1, res_uploadedPhotos = Some 1\<rparr>,
      run_world (run_row Completed (Some 10) (Some 20) 5 5 1 1) (saved @ [example_saved])
        (shown 5 5 1 1 2 2) (calls_of_fetch @ calls_of_scan @ calls_of_upload))"
  apply (simp only: scan_and_upload_def Let_def fst_conv snd_conv ex_constants ex_scan ex_upload)
  apply (simp add: eval_defs ex_defs)
  done

lemma ex_run:
  "processScan example_env example_job (queued_world (run_row st0 started0 None t0 s0 m0 u0) saved)
   = (Inr \<lparr>res_success = True, res_message = None, res_totalPhotos = 5,
            res_scannedPhotos = Some 5, res_matchedPhotos = 1, res_uploadedPhotos = Some 1\<rparr>,
      run_world (run_row Completed (Some 10) (Some 20) 5 5 1 1) (saved @ [example_saved])
        (shown 5 5 1 1 2 2) (calls_of_fetch @ calls_of_scan @ calls_of_upload))"
proof -
  have "processScan_try example_env example_job
          (queued_world (run_row st0 started0 None t0 s0 m0 u0) saved)
   = (Inr \<lparr>res_success = True, res_message = None, res_totalPhotos = 5,
            res_scannedPhotos = Some 5, res_matchedPhotos = 1, res_uploadedPhotos = Some 1\<rparr>,
      run_world (run_row Completed (Some 10) (Some 20) 5 5 1 1) (saved @ [example_saved])
        (shown 5 5 1 1 2 2) (calls_of_fetch @ calls_of_scan @ calls_of_upload))"
    unfolding processScan_try_uuid [OF ex_uuid] resolve_and_scan_resolved [OF ex_resolved] ex_fetch
    by (simp add: ex_constants ex_scan_and_upload)
  then show ?thesis
    by (simp add: processScan_def)
qed

lemma pending_queued: "pending_world = queued_world (run_row Pending None None 0 0 0 0) []"
  by (simp add: pending_world_def queued_world_def)

lemma album_resolved:
  "resolveAccessToken album_env (job_oauthToken example_job) = Inr ''access-token''"
  by (simp add: eval_defs ex_defs album_env_def)

lemma album_script:
  "script_items (env_mediaItems_search album_env ''access-token'') = Inr album_photos"
  by (simp add: album_env_def)

lemma album_size:
  "length album_photos = 12"
  "batchSize (env_BATCH_SIZE album_env) = 4"
  "ceil_div 12 4 = 3"
  by (simp_all add: album_photos_def album_env_def batchSize_def ceil_div_def)

lemma album_download:
  "download_all (env_downloadPhoto album_env) [] = []"
  "download_all (env_downloadPhoto album_env) (example_item i # items) =
     \<lparr>dl_id = i, dl_buffer = [255, 216], dl_metadata = example_item i\<rparr>
       # download_all (env_downloadPhoto album_env) items"
  by (simp_all add: download_all_def List.map_filter_def album_env_def example_env_def
        example_item_def)

lemma album_slices:
  "take 4 (drop (0 * 4) album_photos) =
     [example_item ''a'', example_item ''b'', example_item ''c'', example_item ''d'']"
  "take 4 (drop (1 * 4) album_photos) =
     [example_item ''e'', example_item ''f'', example_item ''g'', example_item ''h'']"
  "take 4 (drop (2 * 4) album_photos) =
     [example_item ''i'', example_item ''j'', example_item ''k'', example_item ''l'']"
  by (simp_all add: album_photos_def)

lemma album_downloads:
  "tagged_downloads album_env album_photos 4 0 =
     map (\<lambda>(b, i). (b, \<lparr>dl_id = i, dl_buffer = [255, 216], dl_metadata = example_item i\<rparr>))
       [(1, ''a''), (1, ''b''), (1, ''c''), (1, ''d''), (2, ''e''), (2, ''f''), (2, ''g''),
        (2, ''h''), (3, ''i''), (3, ''j''), (3, ''k''), (3, ''l'')]"
proof -
  have batches: "[0..<ceil_div (length album_photos) 4] = [0, 1, 2]"
    by (simp add: album_size upt_rec)
  show ?thesis
    unfolding tagged_downloads_def batches list.map album_slices album_download
    by simp
qed

lemma album_reported:
  "reported album_env example_job \<lparr>dl_id = i, dl_buffer = [255, 216], dl_metadata = example_item i\<rparr>
     = (i = ''c'' \<or> i = ''k'')"
  by (simp add: reported_def evaluate_def matchFace_def matchFace_with_def matchFace_try_def
      detectFaces_def detectFaces_try_def album_env_def example_env_def example_job_def)

lemma album_updates:
  "batch_stage_updates album_env example_job album_photos =
     [\<lparr>totalPhotos = 12, scannedPhotos = 10, matchedPhotos = 1, uploadedPhotos = 0,
       currentBatch = 3, totalBatches = 3\<rparr>]"
proof -
  have tens: "filter (\<lambda>k. (0 + k) mod 10 = 0) [1..<Suc 12] = [10::nat]"
    by (simp add: upt_rec)
  show ?thesis
    unfolding batch_stage_updates_def updates_at_tens_def album_size album_downloads
      length_map list.size tens
    by (simp add: album_reported)
qed









theorem progress_updates_monotone_witness:
  "progress_updates (new_calls pending_world
       (snd (processScan example_env example_job pending_world)))
     = [shown 3 0 0 0 0 0, shown 5 0 0 0 0 0, shown 5 0 0 0 0 2, shown 5 5 1 1 2 2,
        shown 5 5 1 1 2 2]
   \<and> sorted_wrt counters_le
        (progress_updates (new_calls pending_world
           (snd (processScan example_env example_job pending_world))))"
proof -
  have listed: "progress_updates (new_calls pending_world
       (snd (processScan example_env example_job pending_world)))
     = [shown 3 0 0 0 0 0, shown 5 0 0 0 0 0, shown 5 0 0 0 0 2, shown 5 5 1 1 2 2,
        shown 5 5 1 1 2 2]"
    unfolding pending_queued ex_run
    by (simp add: new_calls_def run_world_def queued_world_def calls_of_fetch_def
        calls_of_scan_def calls_of_upload_def)
  from progress_updates_monotone [of pending_world example_env example_job]
  have ordered: "sorted_wrt counters_le
        (progress_updates (new_calls pending_world
           (snd (processScan example_env example_job pending_world))))"
    by (rule conjunct1)
  from listed ordered show ?thesis by (rule conjI)
qed

text \<open>
  C4, as the spec states it, fails at the end of a batch: with batches of three and
  five items, the first batch ends after three evaluated items and the second after
  five, and neither end writes a progress update.
\<close>

theorem no_progress_update_at_end_of_batch:
  "calls (snd (process_batches example_env example_job example_photos 3 2 0
          (initial_locals\<lparr>totalPhotos := 5\<rparr>, empty_world)))
     = [DownloadPhotosInBatches [''a'', ''b'', ''c''], MatchFace ''a'', MatchFace ''b'',
        MatchFace ''c'', DownloadPhotosInBatches [''d'', ''e''], MatchFace ''d'', MatchFace ''e'']"
  by (simp add: eval_defs ex_defs empty_world_def process_batches.simps)

lemma album_nonempty: "album_photos \<noteq> []"
  by (simp add: album_photos_def)

theorem batch_progress_at_multiples_of_ten_witness:
  "is_uuid (job_scanId example_job)
   \<and> resolveAccessToken album_env (job_oauthToken example_job) = Inr ''access-token''
   \<and> script_items (env_mediaItems_search album_env ''access-token'') = Inr album_photos
   \<and> album_photos \<noteq> []
   \<and> (\<exists>fetch batch after.
         new_calls pending_world (snd (processScan album_env example_job pending_world)) =
           FetchAllPhotos # map UpdateProgress fetch
             @ UpdateProgress
                 \<lparr>totalPhotos = 12, scannedPhotos = 0, matchedPhotos = 0, uploadedPhotos = 0,
                  currentBatch = 0, totalBatches = 3\<rparr>
             # batch
             @ ScanningComplete
                 (reported_matches album_env example_job
                    (download_all (env_downloadPhoto album_env) album_photos))
             # after
       \<and> progress_updates batch =
           [\<lparr>totalPhotos = 12, scannedPhotos = 10, matchedPhotos = 1, uploadedPhotos = 0,
             currentBatch = 3, totalBatches = 3\<rparr>])"
proof -
  from batch_progress_at_multiples_of_ten [OF ex_uuid album_resolved album_script album_nonempty,
      of pending_world]
  have "\<exists>fetch batch after.
         new_calls pending_world (snd (processScan album_env example_job pending_world)) =
           FetchAllPhotos # map UpdateProgress fetch
             @ UpdateProgress
                 \<lparr>totalPhotos = 12, scannedPhotos = 0, matchedPhotos = 0, uploadedPhotos = 0,
                  currentBatch = 0, totalBatches = 3\<rparr>
             # batch
             @ ScanningComplete
                 (reported_matches album_env example_job
                    (download_all (env_downloadPhoto album_env) album_photos))
             # after
       \<and> progress_updates batch =
           [\<lparr>totalPhotos = 12, scannedPhotos = 10, matchedPhotos = 1, uploadedPhotos = 0,
             currentBatch = 3, totalBatches = 3\<rparr>]"
    unfolding album_updates album_size by blast
  with ex_uuid album_resolved album_script album_nonempty show ?thesis
    by simp
qed


lemma ex_empty_resolved:
  "resolveAccessToken empty_library_env (job_oauthToken example_job) = Inr ''access-token''"
  by (simp add: eval_defs ex_defs empty_library_env_def)

lemma ex_empty_script:
  "script_items (env_mediaItems_search empty_library_env ''access-token'') = Inr []"
  by (simp add: ex_defs empty_library_env_def)

theorem empty_library_completes_witness:
  "is_uuid (job_scanId example_job)
   \<and> resolveAccessToken empty_library_env (job_oauthToken example_job) = Inr ''access-token''
   \<and> script_items (env_mediaItems_search empty_library_env ''access-token'') = Inr []
   \<and> fst (processScan empty_library_env example_job pending_world) =
           Inr \<lparr>res_success = True, res_message = Some ''No photos found in Google Photos'',
                res_totalPhotos = 0, res_scannedPhotos = None,
                res_matchedPhotos = 0, res_uploadedPhotos = None\<rparr>
   \<and> matched_photos_table (snd (processScan empty_library_env example_job pending_world)) = []"
proof -
  from empty_library_completes [OF ex_uuid ex_empty_resolved ex_empty_script, of pending_world]
  have "fst (processScan empty_library_env example_job pending_world) =
           Inr \<lparr>res_success = True, res_message = Some ''No photos found in Google Photos'',
                res_totalPhotos = 0, res_scannedPhotos = None,
                res_matchedPhotos = 0, res_uploadedPhotos = None\<rparr>"
    and "matched_photos_table (snd (processScan empty_library_env example_job pending_world))
           = matched_photos_table pending_world"
    by simp_all
  with ex_uuid ex_empty_resolved ex_empty_script show ?thesis
    by (simp add: pending_world_def)
qed

text \<open>
  C5, as the spec states it, fails: with a well-formed scan id that no scan of the store
  has, the run raises no error at step 1, enumerates the library and returns a result.
\<close>

theorem missing_scan_run_goes_on:
  "is_uuid (job_scanId example_job)
   \<and> scans_table empty_world (job_scanId example_job) = None
   \<and> processScan empty_library_env example_job empty_world =
       (Inr \<lparr>res_success = True, res_message = Some ''No photos found in Google Photos'',
             res_totalPhotos = 0, res_scannedPhotos = None,
             res_matchedPhotos = 0, res_uploadedPhotos = None\<rparr>,
        empty_world\<lparr>redis := [''7c9e6679-7425-40de-944b-e07fc1f90ae7'' \<mapsto> (zero_progress, 86400)],
                     calls := [FetchAllPhotos, UpdateProgress zero_progress]\<rparr>)"
proof -
  have "processScan_try empty_library_env example_job empty_world =
       (Inr \<lparr>res_success = True, res_message = Some ''No photos found in Google Photos'',
             res_totalPhotos = 0, res_scannedPhotos = None,
             res_matchedPhotos = 0, res_uploadedPhotos = None\<rparr>,
        empty_world\<lparr>redis := [''7c9e6679-7425-40de-944b-e07fc1f90ae7'' \<mapsto> (zero_progress, 86400)],
                     calls := [FetchAllPhotos, UpdateProgress zero_progress]\<rparr>)"
    unfolding processScan_try_uuid [OF ex_uuid] resolve_and_scan_resolved [OF ex_empty_resolved]
    by (simp add: eval_defs ex_defs empty_world_def empty_library_env_def zero_progress_def)
  then have "processScan empty_library_env example_job empty_world =
       (Inr \<lparr>res_success = True, res_message = Some ''No photos found in Google Photos'',
             res_totalPhotos = 0, res_scannedPhotos = None,
             res_matchedPhotos = 0, res_uploadedPhotos = None\<rparr>,
        empty_world\<lparr>redis := [''7c9e6679-7425-40de-944b-e07fc1f90ae7'' \<mapsto> (zero_progress, 86400)],
                     calls := [FetchAllPhotos, UpdateProgress zero_progress]\<rparr>)"
    by (simp add: processScan_def)
  moreover have "scans_table empty_world (job_scanId example_job) = None"
    by (simp add: empty_world_def)
  ultimately show ?thesis
    using ex_uuid by simp
qed

text \<open>
  C5 (amended): a run whose scan id is not the text of a uuid fails at step 1 with the
  error of the database and does nothing else. A run whose scan id is a uuid that no
  scan has does not fail there: marking the scan as started changes nothing and raises
  no error, the run goes on to resolve the credential and, when that succeeds, to
  enumerate the remote items, and no row is created for the scan.
\<close>

theorem missing_scan_no_error_at_step_one:
  "(\<not> is_uuid (job_scanId job) \<longrightarrow>
      processScan env job w = (Inl (invalid_uuid (job_scanId job)), w))
   \<and> (is_uuid (job_scanId job) \<and> scans_table w (job_scanId job) = None \<longrightarrow>
        markScanStarted (job_scanId job) (env_NOW_started env) w = Inr w
      \<and> (\<forall>accessToken. resolveAccessToken env (job_oauthToken job) = Inr accessToken \<longrightarrow>
            (\<exists>evs. new_calls w (snd (processScan env job w)) = FetchAllPhotos # evs))
      \<and> scans_table (snd (processScan env job w)) (job_scanId job) = None)"
proof (intro conjI impI)
  assume "\<not> is_uuid (job_scanId job)"
  then show "processScan env job w = (Inl (invalid_uuid (job_scanId job)), w)"
    by (rule processScan_not_uuid)
next
  assume h: "is_uuid (job_scanId job) \<and> scans_table w (job_scanId job) = None"
  then have same: "update_row (job_scanId job)
      (\<lambda>s. s\<lparr>status := Processing, started_at := Some (env_NOW_started env)\<rparr>) w = w"
    by (simp add: update_row_def)
  from h show "markScanStarted (job_scanId job) (env_NOW_started env) w = Inr w"
    by (simp add: markScanStarted_def update_row_def)
  show "\<forall>accessToken. resolveAccessToken env (job_oauthToken job) = Inr accessToken \<longrightarrow>
            (\<exists>evs. new_calls w (snd (processScan env job w)) = FetchAllPhotos # evs)"
  proof (intro allI impI)
    fix accessToken
    assume tok: "resolveAccessToken env (job_oauthToken job) = Inr accessToken"
    have tried: "processScan_try env job w = resolve_and_scan env job w"
      using h by (simp add: processScan_try_uuid same)
    from resolve_and_scan_from_fetch [OF tok, of w] processScan_grows_try [of env job w]
    have "grows (record_call FetchAllPhotos w) (snd (processScan env job w))"
      unfolding tried by (rule grows_trans)
    then obtain evs where "calls (snd (processScan env job w)) = calls w @ (FetchAllPhotos # evs)"
      unfolding grows_def by auto
    then have "new_calls w (snd (processScan env job w)) = FetchAllPhotos # evs"
      by (rule new_calls_append)
    then show "\<exists>evs. new_calls w (snd (processScan env job w)) = FetchAllPhotos # evs"
      by (rule exI)
  qed
  from h show "scans_table (snd (processScan env job w)) (job_scanId job) = None"
    using processScan_grows grows_no_row by blast
qed

theorem missing_scan_no_error_at_step_one_witness:
  "\<not> is_uuid (job_scanId misnamed_job)
   \<and> processScan empty_library_env misnamed_job empty_world = (Inl (invalid_uuid ''scan-1''), empty_world)
   \<and> is_uuid (job_scanId example_job)
   \<and> scans_table empty_world (job_scanId example_job) = None
   \<and> markScanStarted (job_scanId example_job) (env_NOW_started empty_library_env) empty_world
       = Inr empty_world
   \<and> (\<exists>evs. new_calls empty_world (snd (processScan empty_library_env example_job empty_world))
               = FetchAllPhotos # evs)
   \<and> scans_table (snd (processScan empty_library_env example_job empty_world))
        (job_scanId example_job) = None"
proof -
  have h: "scans_table empty_world (job_scanId example_job) = None"
    by (simp add: empty_world_def)
  have n: "job_scanId misnamed_job = ''scan-1''"
    by (simp add: misnamed_job_def)
  from missing_scan_no_error_at_step_one [of misnamed_job empty_library_env empty_world]
    ex_not_uuid
  have first: "processScan empty_library_env misnamed_job empty_world
      = (Inl (invalid_uuid ''scan-1''), empty_world)"
    unfolding n by blast
  from missing_scan_no_error_at_step_one [of example_job empty_library_env empty_world]
    ex_uuid h ex_empty_resolved
  have "markScanStarted (job_scanId example_job) (env_NOW_started empty_library_env) empty_world
       = Inr empty_world
   \<and> (\<exists>evs. new_calls empty_world (snd (processScan empty_library_env example_job empty_world))
               = FetchAllPhotos # evs)
   \<and> scans_table (snd (processScan empty_library_env example_job empty_world))
        (job_scanId example_job) = None"
    by blast
  with first ex_not_uuid ex_uuid h show ?thesis
    by blast
qed


section \<open>The rows a completed run has saved\<close>






end
